theory Spec2Isabelle
  imports Complex_Main "HOL-Library.AList" "HOL-Library.Sublist"
begin

section \<open>Documents, collections and the two Firestore databases\<close>

text \<open>
  A document snapshot has an identifier and a field map (\<open>doc.id\<close>, \<open>doc.data()\<close>).
  The script inspects one field only, \<open>organization_id\<close>, which the query compares with
  the string given on the command line; field values are strings here.
  A collection lists its documents in the order a query returns them, and a database maps
  collection names to collections.
\<close>

type_synonym fields = "(string \<times> string) list"

record doc =
  doc_id :: string
  doc_data :: fields

type_synonym collection = "(string \<times> fields) list"

type_synonym firestore = "string \<Rightarrow> collection"

text \<open>The two database handles of the script: \<open>mainFirestore\<close> and \<open>archiveFirestore\<close>.\<close>

datatype sink = MainFirestore | ArchiveFirestore

text \<open>
  The operations a write batch can hold: \<open>set(ref, data)\<close> and \<open>delete(ref)\<close>, the
  reference being a collection name and a document identifier.
\<close>

datatype write_op =
    Set_op string string fields
  | Delete_op string string

fun apply_op :: "write_op \<Rightarrow> firestore \<Rightarrow> firestore" where
  "apply_op (Set_op c i d) db = db(c := AList.update i d (db c))"
| "apply_op (Delete_op c i) db = db(c := AList.delete i (db c))"

definition apply_ops :: "write_op list \<Rightarrow> firestore \<Rightarrow> firestore" where
  "apply_ops ops db = fold apply_op ops db"

text \<open>\<open>collection(c).where('organization_id', '==', org)\<close>: the documents that match.\<close>

definition matching :: "string \<Rightarrow> collection \<Rightarrow> doc list" where
  "matching org coll =
     map (\<lambda>(i, d). \<lparr>doc_id = i, doc_data = d\<rparr>)
       (filter (\<lambda>(i, d). map_of d ''organization_id'' = Some org) coll)"

section \<open>Errors, log lines and events\<close>

text \<open>A rejected promise of the backend: a failed query or a failed commit of one sink.\<close>

datatype error = QueryError | CommitError sink

text \<open>
  Every message the script hands to the logger, with the values its template string
  interpolates; \<open>render\<close> gives the text.
\<close>

datatype message =
    Main_project string
  | Archive_project string
  | Testing_fetch string string
  | No_documents_for_testing
  | Found_for_testing nat
  | Document_sample string string
  | Error_test_fetch
  | Starting string string string
  | No_match
  | Found_to_archive nat
  | Dry_doc string
  | Archived nat
  | Dry_batch nat
  | Archived_last nat
  | Dry_last nat
  | Completed
  | Error_archival
  | No_documents_exiting
  | Dry_run_enabled
  | Default_missing_project
  | Archive_missing_project

definition digit :: "nat \<Rightarrow> char" where
  "digit n = char_of (48 + n)"

function show_nat :: "nat \<Rightarrow> string" where
  "show_nat n = (if n < 10 then [digit n] else show_nat (n div 10) @ [digit (n mod 10)])"
  by pat_completeness auto
termination
  by (relation "measure (\<lambda>n. n)") auto

declare show_nat.simps [simp del]

fun render :: "message \<Rightarrow> string" where
  "render (Main_project p) = ''Main Project ID: '' @ p"
| "render (Archive_project p) = ''Archive Project ID: '' @ p"
| "render (Testing_fetch org c) =
     ''Testing fetch for organization_id '' @ [CHR 0x27] @ org @ [CHR 0x27] @ '' from ''
       @ [CHR 0x27] @ c @ [CHR 0x27] @ '' collection...''"
| "render No_documents_for_testing = ''No documents found for testing.''"
| "render (Found_for_testing n) = ''Found '' @ show_nat n @ '' documents for testing.''"
| "render (Document_sample i org) = ''Document ID: '' @ i @ '', organization_id: '' @ org"
| "render Error_test_fetch = ''Error during test fetch:''"
| "render (Starting org c a) =
     ''Starting archival process for organization_id '' @ [CHR 0x27] @ org @ [CHR 0x27]
       @ '' from '' @ [CHR 0x27] @ c @ [CHR 0x27] @ '' to '' @ [CHR 0x27] @ a @ [CHR 0x27]
       @ ''...''"
| "render No_match = ''No documents match the archival criteria.''"
| "render (Found_to_archive n) = ''Found '' @ show_nat n @ '' documents to archive.''"
| "render (Dry_doc i) = ''Dry Run: Would archive and delete Document ID: '' @ i"
| "render (Archived n) = ''Archived and deleted '' @ show_nat n @ '' documents.''"
| "render (Dry_batch n) =
     ''Dry Run: Would archive and delete '' @ show_nat n @ '' documents.''"
| "render (Archived_last n) =
     ''Archived and deleted the last '' @ show_nat n @ '' documents.''"
| "render (Dry_last n) =
     ''Dry Run: Would archive and delete the last '' @ show_nat n @ '' documents.''"
| "render Completed = ''Archival process completed successfully.''"
| "render Error_archival = ''Error during archival process:''"
| "render No_documents_exiting = ''No documents found. Exiting archival process.''"
| "render Dry_run_enabled =
     ''Dry run mode enabled. No documents will be archived or deleted.''"
| "render Default_missing_project =
     ''Default service account JSON is missing \"project_id\".''"
| "render Archive_missing_project =
     ''Archive service account JSON is missing \"project_id\".''"

text \<open>\<open>logger.info(m)\<close> and \<open>logger.error(m, error)\<close>.\<close>

datatype log_entry = LogInfo message | LogError message "error option"

text \<open>
  What the script does with the database handles: a query (collection, organization,
  whether the backend answered it), an operation added to the write batch of a sink, and
  the commit of a sink's write batch (the operations it holds, whether the backend
  accepted it).
\<close>

datatype event =
    Query string string bool
  | Stage sink write_op
  | Commit sink "write_op list" bool

section \<open>The world the script runs in\<close>

text \<open>
  The state outside the script: both databases, the log written so far, the events so
  far, the number of backend calls made (queries and commits), and which backend calls
  are rejected (\<open>faults w k\<close>: the call made after \<open>k\<close> earlier ones fails). The
  script reads \<open>faults\<close> and never writes it.
\<close>

record world =
  mainFirestore :: firestore
  archiveFirestore :: firestore
  logged :: "log_entry list"
  trace :: "event list"
  calls :: nat
  faults :: "nat \<Rightarrow> bool"

definition logger_info :: "message \<Rightarrow> world \<Rightarrow> world" where
  "logger_info m w = w\<lparr>logged := logged w @ [LogInfo m]\<rparr>"

definition logger_error :: "message \<Rightarrow> error option \<Rightarrow> world \<Rightarrow> world" where
  "logger_error m e w = w\<lparr>logged := logged w @ [LogError m e]\<rparr>"

text \<open>
  \<open>await mainFirestore.collection(c).where('organization_id', '==', org).get()\<close>:
  the matching documents, or the rejection.
\<close>

definition query_get :: "string \<Rightarrow> string \<Rightarrow> world \<Rightarrow> (error + doc list) \<times> world" where
  "query_get c org w =
     (let ok = \<not> faults w (calls w);
          w1 = w\<lparr>trace := trace w @ [Query c org ok], calls := calls w + 1\<rparr>
      in if ok then (Inr (matching org (mainFirestore w c)), w1) else (Inl QueryError, w1))"

text \<open>
  \<open>await b.commit()\<close> for the write batch \<open>b\<close> of a sink: all of its operations are
  applied, or none is and the promise is rejected.
\<close>

definition on_sink :: "sink \<Rightarrow> (firestore \<Rightarrow> firestore) \<Rightarrow> world \<Rightarrow> world" where
  "on_sink s f w =
     (case s of
        MainFirestore \<Rightarrow> w\<lparr>mainFirestore := f (mainFirestore w)\<rparr>
      | ArchiveFirestore \<Rightarrow> w\<lparr>archiveFirestore := f (archiveFirestore w)\<rparr>)"

definition commit :: "sink \<Rightarrow> write_op list \<Rightarrow> world \<Rightarrow> (error + unit) \<times> world" where
  "commit s ops w =
     (let ok = \<not> faults w (calls w);
          w1 = w\<lparr>trace := trace w @ [Commit s ops ok], calls := calls w + 1\<rparr>
      in if ok then (Inr (), on_sink s (apply_ops ops) w1) else (Inl (CommitError s), w1))"

section \<open>The archival function\<close>

text \<open>
  The options object of \<open>archiveContactsDocuments\<close>; \<open>batchSize\<close> and \<open>isDryRun\<close> may be
  undefined (\<open>None\<close>) and then take their defaults, 500 and false.
\<close>

record options =
  liveCollection :: string
  archiveCollection :: string
  organizationId :: string
  batchSize :: "int option"
  isDryRun :: "bool option"

definition the_batchSize :: "options \<Rightarrow> int" where
  "the_batchSize opts = (case batchSize opts of None \<Rightarrow> 500 | Some b \<Rightarrow> b)"

definition the_isDryRun :: "options \<Rightarrow> bool" where
  "the_isDryRun opts = (case isDryRun opts of None \<Rightarrow> False | Some b \<Rightarrow> b)"

text \<open>The loop variables: the two write batches and the counter.\<close>

record loop_state =
  batch :: "write_op list"
  archiveBatch :: "write_op list"
  operations :: nat

definition fresh :: loop_state where
  "fresh = \<lparr>batch = [], archiveBatch = [], operations = 0\<rparr>"

text \<open>\<open>doc.data().organization_id\<close> inside a template string.\<close>

definition organization_id_text :: "doc \<Rightarrow> string" where
  "organization_id_text d =
     (case map_of (doc_data d) ''organization_id'' of None \<Rightarrow> ''undefined'' | Some v \<Rightarrow> v)"

text \<open>\<open>docs.slice(0, 5).forEach(doc => logger.info(...))\<close>.\<close>

definition log_samples :: "doc list \<Rightarrow> world \<Rightarrow> world" where
  "log_samples docs w =
     fold (\<lambda>d. logger_info (Document_sample (doc_id d) (organization_id_text d))) (take 5 docs) w"

text \<open>
  The operations staged for a document: \<open>archiveBatch.set(archiveDocRef, docData)\<close> and
  \<open>batch.delete(liveRef.doc(doc.id))\<close>.
\<close>

definition set_of :: "options \<Rightarrow> doc \<Rightarrow> write_op" where
  "set_of opts d = Set_op (archiveCollection opts) (doc_id d) (doc_data d)"

definition delete_of :: "options \<Rightarrow> doc \<Rightarrow> write_op" where
  "delete_of opts d = Delete_op (liveCollection opts) (doc_id d)"

text \<open>
  The loop body up to and including \<open>operations++\<close>: stage the set and the delete, or log
  the dry-run line.
\<close>

definition stage :: "options \<Rightarrow> doc \<Rightarrow> loop_state \<times> world \<Rightarrow> loop_state \<times> world" where
  "stage opts d sw =
     (let s = fst sw; w = snd sw
      in if \<not> the_isDryRun opts
         then (s\<lparr>batch := batch s @ [delete_of opts d],
                 archiveBatch := archiveBatch s @ [set_of opts d],
                 operations := operations s + 1\<rparr>,
               w\<lparr>trace := trace w @ [Stage ArchiveFirestore (set_of opts d),
                                       Stage MainFirestore (delete_of opts d)]\<rparr>)
         else (s\<lparr>operations := operations s + 1\<rparr>, logger_info (Dry_doc (doc_id d)) w))"

text \<open>
  The two awaited commits of a batch: a rejected archive commit throws before the delete
  commit is reached.
\<close>

definition commit_both :: "loop_state \<Rightarrow> world \<Rightarrow> (error + unit) \<times> world" where
  "commit_both s w =
     (case commit ArchiveFirestore (archiveBatch s) w of
        (Inl e, w1) \<Rightarrow> (Inl e, w1)
      | (Inr _, w1) \<Rightarrow> commit MainFirestore (batch s) w1)"

text \<open>The body of \<open>if (operations === batchSize)\<close>, with the reset at its end.\<close>

definition flush_full :: "options \<Rightarrow> loop_state \<Rightarrow> world \<Rightarrow> (error + loop_state) \<times> world" where
  "flush_full opts s w =
     (if \<not> the_isDryRun opts
      then (case commit_both s w of
              (Inl e, w1) \<Rightarrow> (Inl e, w1)
            | (Inr _, w1) \<Rightarrow> (Inr fresh, logger_info (Archived (operations s)) w1))
      else (Inr fresh, logger_info (Dry_batch (operations s)) w))"

text \<open>The body of \<open>if (operations > 0)\<close> after the loop.\<close>

definition flush_last :: "options \<Rightarrow> loop_state \<Rightarrow> world \<Rightarrow> (error + unit) \<times> world" where
  "flush_last opts s w =
     (if operations s > 0
      then (if \<not> the_isDryRun opts
            then (case commit_both s w of
                    (Inl e, w1) \<Rightarrow> (Inl e, w1)
                  | (Inr _, w1) \<Rightarrow> (Inr (), logger_info (Archived_last (operations s)) w1))
            else (Inr (), logger_info (Dry_last (operations s)) w))
      else (Inr (), w))"

text \<open>\<open>for (const doc of querySnapshot.docs) { ... }\<close>; a thrown error leaves the loop.\<close>

fun archive_loop ::
  "options \<Rightarrow> doc list \<Rightarrow> loop_state \<Rightarrow> world \<Rightarrow> (error + loop_state) \<times> world" where
  "archive_loop opts [] s w = (Inr s, w)"
| "archive_loop opts (d # ds) s w =
     (case stage opts d (s, w) of
        (s1, w1) \<Rightarrow>
          if int (operations s1) = the_batchSize opts
          then (case flush_full opts s1 w1 of
                  (Inl e, w2) \<Rightarrow> (Inl e, w2)
                | (Inr s2, w2) \<Rightarrow> archive_loop opts ds s2 w2)
          else archive_loop opts ds s1 w1)"

text \<open>The loop followed by the commit of what remains.\<close>

definition archive_batches :: "options \<Rightarrow> doc list \<Rightarrow> world \<Rightarrow> (error + unit) \<times> world" where
  "archive_batches opts docs w =
     (case archive_loop opts docs fresh w of
        (Inl e, w1) \<Rightarrow> (Inl e, w1)
      | (Inr s, w1) \<Rightarrow> flush_last opts s w1)"

text \<open>The \<open>try\<close> block of \<open>archiveContactsDocuments\<close>.\<close>

definition archive_try :: "options \<Rightarrow> world \<Rightarrow> (error + unit) \<times> world" where
  "archive_try opts w =
     (let w0 = logger_info
                 (Starting (organizationId opts) (liveCollection opts) (archiveCollection opts)) w
      in case query_get (liveCollection opts) (organizationId opts) w0 of
           (Inl e, w1) \<Rightarrow> (Inl e, w1)
         | (Inr docs, w1) \<Rightarrow>
             if docs = [] then (Inr (), logger_info No_match w1)
             else (case archive_batches opts docs
                          (log_samples docs (logger_info (Found_to_archive (length docs)) w1)) of
                     (Inl e, w2) \<Rightarrow> (Inl e, w2)
                   | (Inr _, w2) \<Rightarrow> (Inr (), logger_info Completed w2)))"

text \<open>
  \<open>archiveContactsDocuments\<close>: the \<open>try\<close> block, and the \<open>catch\<close> block that logs the error.
  The result is what the returned promise settles to.
\<close>

definition archiveContactsDocuments :: "options \<Rightarrow> world \<Rightarrow> (error + unit) \<times> world" where
  "archiveContactsDocuments opts w =
     (case archive_try opts w of
        (Inl e, w1) \<Rightarrow> (Inr (), logger_error Error_archival (Some e) w1)
      | (Inr _, w1) \<Rightarrow> (Inr (), w1))"

section \<open>The preflight probe and the main function\<close>

text \<open>The \<open>try\<close> block of \<open>testFetchDocuments\<close>: whether the query matched a document.\<close>

definition testFetch_try :: "string \<Rightarrow> string \<Rightarrow> world \<Rightarrow> (error + bool) \<times> world" where
  "testFetch_try c org w =
     (case query_get c org (logger_info (Testing_fetch org c) w) of
        (Inl e, w1) \<Rightarrow> (Inl e, w1)
      | (Inr docs, w1) \<Rightarrow>
          if docs = [] then (Inr False, logger_info No_documents_for_testing w1)
          else (Inr True, log_samples docs (logger_info (Found_for_testing (length docs)) w1)))"

text \<open>\<open>testFetchDocuments\<close>: its \<open>catch\<close> block logs the error and returns false.\<close>

definition testFetchDocuments :: "string \<Rightarrow> string \<Rightarrow> world \<Rightarrow> (error + bool) \<times> world" where
  "testFetchDocuments c org w =
     (case testFetch_try c org w of
        (Inl e, w1) \<Rightarrow> (Inr False, logger_error Error_test_fetch (Some e) w1)
      | (Inr b, w1) \<Rightarrow> (Inr b, w1))"

text \<open>The parsed command line: \<open>argv.org\<close> and \<open>argv.dryRun\<close> (undefined without the flag).\<close>

record argv =
  org :: string
  dryRun :: "bool option"

text \<open>\<open>verifyProjects\<close> logs the project identifiers of the two initialised apps.\<close>

definition verifyProjects :: "string \<Rightarrow> string \<Rightarrow> world \<Rightarrow> world" where
  "verifyProjects mainProject archiveProject w =
     logger_info (Archive_project archiveProject) (logger_info (Main_project mainProject) w)"

definition LIVE_COLLECTION :: string where
  "LIVE_COLLECTION = ''Organizations''"

definition ARCHIVE_COLLECTION :: string where
  "ARCHIVE_COLLECTION = ''archive_Organizations''"

definition truthy :: "bool option \<Rightarrow> bool" where
  "truthy b = (case b of None \<Rightarrow> False | Some v \<Rightarrow> v)"

text \<open>The options object \<open>main\<close> passes to \<open>archiveContactsDocuments\<close>.\<close>

definition main_options :: "argv \<Rightarrow> options" where
  "main_options av =
     \<lparr>liveCollection = LIVE_COLLECTION, archiveCollection = ARCHIVE_COLLECTION,
      organizationId = org av, batchSize = Some 500, isDryRun = dryRun av\<rparr>"

text \<open>
  \<open>main\<close>: the probe, then the archival unless the probe returned false. \<open>if (isDryRun)\<close>
  tests the value of the flag, which is false when it is undefined.
\<close>

definition main :: "argv \<Rightarrow> string \<Rightarrow> string \<Rightarrow> world \<Rightarrow> (error + unit) \<times> world" where
  "main av mainProject archiveProject w =
     (case testFetchDocuments LIVE_COLLECTION (org av)
             (verifyProjects mainProject archiveProject w) of
        (Inl e, w1) \<Rightarrow> (Inl e, w1)
      | (Inr hasDocuments, w1) \<Rightarrow>
          if \<not> hasDocuments then (Inr (), logger_info No_documents_exiting w1)
          else archiveContactsDocuments (main_options av)
                 (if truthy (dryRun av) then logger_info Dry_run_enabled w1 else w1))"

section \<open>The script from the command line to the exit status\<close>

text \<open>
  The command line as yargs reads it: the value of \<open>--org\<close>, which is required
  (\<open>demandOption: true\<close>), and of \<open>--dryRun\<close>, which is optional. When a required
  option is absent yargs prints the usage and ends the process with status 1. Command
  lines that ask for \<open>--help\<close> are left out.
\<close>

record command_line =
  org_option :: "string option"
  dryRun_option :: "bool option"

text \<open>A service account JSON file as loaded; \<open>project_id\<close> may be absent.\<close>

record service_account =
  project_id :: "string option"

text \<open>\<open>!account.project_id\<close>: the field is absent or the empty string.\<close>

definition missing_project_id :: "service_account \<Rightarrow> bool" where
  "missing_project_id a = (case project_id a of None \<Rightarrow> True | Some p \<Rightarrow> p = [])"

text \<open>\<open>projectId: account.project_id\<close> in the options of \<open>initializeApp\<close>.\<close>

definition projectId :: "service_account \<Rightarrow> string" where
  "projectId a = (case project_id a of None \<Rightarrow> ''undefined'' | Some p \<Rightarrow> p)"

text \<open>
  The whole script, top to bottom: the command line is parsed; each service account is
  checked for its \<open>project_id\<close> (an error line, then \<open>process.exit(1)\<close>); the apps are
  initialised and \<open>main()\<close> runs, after which the process ends with status 0. A
  rejection of the promise of \<open>main()\<close>, which nothing handles, would end the process
  with status 1. Loading the two key files and initialising the apps are taken to
  succeed.
\<close>

definition script ::
  "command_line \<Rightarrow> service_account \<Rightarrow> service_account \<Rightarrow> world \<Rightarrow> nat \<times> world" where
  "script cl defaultServiceAccount archiveServiceAccount w =
     (case org_option cl of
        None \<Rightarrow> (1, w)
      | Some organization \<Rightarrow>
          if missing_project_id defaultServiceAccount
          then (1, logger_error Default_missing_project None w)
          else if missing_project_id archiveServiceAccount
          then (1, logger_error Archive_missing_project None w)
          else (case main \<lparr>org = organization, dryRun = dryRun_option cl\<rparr>
                       (projectId defaultServiceAccount)
                       (projectId archiveServiceAccount) w of
                  (Inl e, w1) \<Rightarrow> (1, w1)
                | (Inr _, w1) \<Rightarrow> (0, w1)))"

section \<open>The partition the specification describes\<close>

text \<open>
  The specification's batch partitioner: the records in order, cut into groups of \<open>n\<close>,
  the last group holding what remains. With no positive size there is one group.
\<close>

function spec_batches :: "nat \<Rightarrow> 'a list \<Rightarrow> 'a list list" where
  "spec_batches n xs =
     (if xs = [] then [] else if n = 0 then [xs] else take n xs # spec_batches n (drop n xs))"
  by pat_completeness auto
termination
  by (relation "measure (\<lambda>(n, xs). length xs)") auto

declare spec_batches.simps [simp del]

text \<open>
  The events of one batch when every commit is accepted: every record staged on both
  sinks, then the archive commit, then the delete commit.
\<close>

definition stage_events :: "options \<Rightarrow> doc list \<Rightarrow> event list" where
  "stage_events opts b =
     concat (map (\<lambda>d. [Stage ArchiveFirestore (set_of opts d),
                        Stage MainFirestore (delete_of opts d)]) b)"

definition batch_events :: "options \<Rightarrow> doc list \<Rightarrow> event list" where
  "batch_events opts b =
     stage_events opts b @
     [Commit ArchiveFirestore (map (set_of opts) b) True,
      Commit MainFirestore (map (delete_of opts) b) True]"

definition spec_events :: "options \<Rightarrow> doc list \<Rightarrow> event list" where
  "spec_events opts docs =
     concat (map (batch_events opts) (spec_batches (nat (the_batchSize opts)) docs))"

text \<open>The log lines of one simulated batch of a dry run.\<close>

definition dry_lines :: "options \<Rightarrow> doc list \<Rightarrow> log_entry list" where
  "dry_lines opts b =
     map (\<lambda>d. LogInfo (Dry_doc (doc_id d))) b @
     [LogInfo (if int (length b) = the_batchSize opts
               then Dry_batch (length b) else Dry_last (length b))]"

section \<open>Reading a run\<close>

text \<open>What a run added to the events and to the log.\<close>

definition new_events :: "world \<Rightarrow> world \<Rightarrow> event list" where
  "new_events w w' = drop (length (trace w)) (trace w')"

definition new_entries :: "world \<Rightarrow> world \<Rightarrow> log_entry list" where
  "new_entries w w' = drop (length (logged w)) (logged w')"

text \<open>The error a backend call raised, if it was rejected.\<close>

fun error_of :: "event \<Rightarrow> error option" where
  "error_of (Query c q ok) = (if ok then None else Some QueryError)"
| "error_of (Stage s x) = None"
| "error_of (Commit s ops ok) = (if ok then None else Some (CommitError s))"

text \<open>The same call, accepted.\<close>

fun accepted :: "event \<Rightarrow> event" where
  "accepted (Query c q ok) = Query c q True"
| "accepted (Stage s x) = Stage s x"
| "accepted (Commit s ops ok) = Commit s ops True"

text \<open>An event that stages or commits a write or a delete.\<close>

fun is_write :: "event \<Rightarrow> bool" where
  "is_write (Query c q ok) = False"
| "is_write (Stage s x) = True"
| "is_write (Commit s ops ok) = True"

text \<open>The write batches a sink accepted, in order.\<close>

fun committed :: "sink \<Rightarrow> event list \<Rightarrow> write_op list list" where
  "committed s [] = []"
| "committed s (Commit s' ops ok # es) =
     (if s' = s \<and> ok then ops # committed s es else committed s es)"
| "committed s (e # es) = committed s es"

text \<open>
  The batch sizes the log reports: one line for each batch committed, or simulated in a
  dry run.
\<close>

fun reported :: "log_entry list \<Rightarrow> nat list" where
  "reported [] = []"
| "reported (LogInfo (Archived n) # es) = n # reported es"
| "reported (LogInfo (Dry_batch n) # es) = n # reported es"
| "reported (LogInfo (Archived_last n) # es) = n # reported es"
| "reported (LogInfo (Dry_last n) # es) = n # reported es"
| "reported (e # es) = reported es"

text \<open>What \<open>logger\<close> prints for an entry: the text of its message.\<close>

fun entry_text :: "log_entry \<Rightarrow> string" where
  "entry_text (LogInfo m) = render m"
| "entry_text (LogError m e) = render m"

section \<open>The loop, batch by batch\<close>

text \<open>Staging a list of records without reaching the batch size.\<close>

definition stage_all :: "options \<Rightarrow> doc list \<Rightarrow> loop_state \<times> world \<Rightarrow> loop_state \<times> world" where
  "stage_all opts ds sw = fold (stage opts) ds sw"

text \<open>A whole batch from fresh write batches: staged, then committed inside or after the loop.\<close>

definition do_full :: "options \<Rightarrow> doc list \<Rightarrow> world \<Rightarrow> (error + loop_state) \<times> world" where
  "do_full opts b w = (case stage_all opts b (fresh, w) of (s1, w1) \<Rightarrow> flush_full opts s1 w1)"

definition do_last :: "options \<Rightarrow> doc list \<Rightarrow> world \<Rightarrow> (error + unit) \<times> world" where
  "do_last opts b w = (case stage_all opts b (fresh, w) of (s1, w1) \<Rightarrow> flush_last opts s1 w1)"

fun run_batches :: "options \<Rightarrow> doc list list \<Rightarrow> world \<Rightarrow> (error + unit) \<times> world" where
  "run_batches opts [] w = (Inr (), w)"
| "run_batches opts (b # bs) w =
     (if int (length b) = the_batchSize opts
      then (case do_full opts b w of
              (Inl e, w2) \<Rightarrow> (Inl e, w2)
            | (Inr _, w2) \<Rightarrow> run_batches opts bs w2)
      else (case do_last opts b w of
              (Inl e, w2) \<Rightarrow> (Inl e, w2)
            | (Inr _, w2) \<Rightarrow> run_batches opts bs w2))"

section \<open>Runs in which the backend accepts every call\<close>

text \<open>The line that reports a committed batch: inside the loop, or after it.\<close>

definition summary :: "options \<Rightarrow> doc list \<Rightarrow> log_entry" where
  "summary opts b =
     LogInfo (if int (length b) = the_batchSize opts
              then Archived (length b) else Archived_last (length b))"

text \<open>The world after a batch of a live run whose two commits were accepted.\<close>

definition after_batch :: "options \<Rightarrow> doc list \<Rightarrow> world \<Rightarrow> world" where
  "after_batch opts b w =
     w\<lparr>trace := trace w @ batch_events opts b,
       calls := calls w + 2,
       archiveFirestore := apply_ops (map (set_of opts) b) (archiveFirestore w),
       mainFirestore := apply_ops (map (delete_of opts) b) (mainFirestore w),
       logged := logged w @ [summary opts b]\<rparr>"

text \<open>The lines \<open>log_samples\<close> writes.\<close>

definition sample_lines :: "doc list \<Rightarrow> log_entry list" where
  "sample_lines docs =
     map (\<lambda>d. LogInfo (Document_sample (doc_id d) (organization_id_text d))) (take 5 docs)"

text \<open>The records the query of a run matches, and the partition of them.\<close>

definition matched :: "options \<Rightarrow> world \<Rightarrow> doc list" where
  "matched opts w = matching (organizationId opts) (mainFirestore w (liveCollection opts))"

definition batches_of :: "options \<Rightarrow> world \<Rightarrow> doc list list" where
  "batches_of opts w = spec_batches (nat (the_batchSize opts)) (matched opts w)"

text \<open>The first lines of a run that found records.\<close>

definition opening_lines :: "options \<Rightarrow> doc list \<Rightarrow> log_entry list" where
  "opening_lines opts docs =
     [LogInfo (Starting (organizationId opts) (liveCollection opts) (archiveCollection opts)),
      LogInfo (Found_to_archive (length docs))] @ sample_lines docs"

section \<open>Runs in which the backend rejects a call\<close>

text \<open>
  How the events of a computation relate to its result: no call was rejected if it
  returned, and the call that raised the error is the last event if it threw.
\<close>

definition ends_with :: "error + 'a \<Rightarrow> event list \<Rightarrow> bool" where
  "ends_with r tr =
     (case r of
        Inr _ \<Rightarrow> (\<forall>e\<in>set tr. error_of e = None)
      | Inl e \<Rightarrow> tr \<noteq> [] \<and> (\<forall>x\<in>set (butlast tr). error_of x = None)
                 \<and> error_of (last tr) = Some e)"

text \<open>The outcome of one batch of a live run, whichever commits the backend rejects.\<close>

definition batch_step :: "options \<Rightarrow> doc list \<Rightarrow> world \<Rightarrow> (error + unit) \<times> world" where
  "batch_step opts b w =
     (if int (length b) = the_batchSize opts
      then (case do_full opts b w of (Inl e, w2) \<Rightarrow> (Inl e, w2) | (Inr _, w2) \<Rightarrow> (Inr (), w2))
      else do_last opts b w)"

text \<open>What holds of the events and the databases of a run, whatever the backend rejects.\<close>

definition tracks :: "world \<Rightarrow> event list \<Rightarrow> world \<Rightarrow> bool" where
  "tracks w tr w' =
     (trace w' = trace w @ tr \<and> faults w' = faults w \<and> prefix (logged w) (logged w')
      \<and> mainFirestore w' = apply_ops (concat (committed MainFirestore tr)) (mainFirestore w)
      \<and> archiveFirestore w' =
          apply_ops (concat (committed ArchiveFirestore tr)) (archiveFirestore w))"

section \<open>The main function after its probe\<close>

text \<open>The lines of a probe that found records.\<close>

definition probe_lines :: "argv \<Rightarrow> string \<Rightarrow> string \<Rightarrow> doc list \<Rightarrow> log_entry list" where
  "probe_lines av mp ap docs =
     [LogInfo (Main_project mp), LogInfo (Archive_project ap),
      LogInfo (Testing_fetch (org av) LIVE_COLLECTION),
      LogInfo (Found_for_testing (length docs))] @ sample_lines docs"

text \<open>The world after a probe that found records.\<close>

definition probed :: "argv \<Rightarrow> string \<Rightarrow> string \<Rightarrow> world \<Rightarrow> world" where
  "probed av mp ap w =
     w\<lparr>trace := trace w @ [Query LIVE_COLLECTION (org av) True],
       calls := calls w + 1,
       logged := logged w @ probe_lines av mp ap (matched (main_options av) w)\<rparr>"

text \<open>Two options objects that the archival function cannot tell apart.\<close>

definition same_run :: "options \<Rightarrow> options \<Rightarrow> bool" where
  "same_run a b =
     (liveCollection a = liveCollection b \<and> archiveCollection a = archiveCollection b
      \<and> organizationId a = organizationId b \<and> the_batchSize a = the_batchSize b
      \<and> the_isDryRun a = the_isDryRun b)"

section \<open>Concrete runs\<close>

text \<open>
  A live collection holding five documents of organization \<open>acme\<close> and one of another
  organization, an empty archive, and a backend that rejects the calls \<open>f\<close> selects:
  none (\<open>accepting\<close>) or the one after \<open>n\<close> earlier calls (\<open>rejecting n\<close>).
\<close>

definition acme_doc :: "string \<Rightarrow> string \<times> fields" where
  "acme_doc i = (i, [(''organization_id'', ''acme'')])"

definition accepting :: "nat \<Rightarrow> bool" where
  "accepting k = False"

definition rejecting :: "nat \<Rightarrow> nat \<Rightarrow> bool" where
  "rejecting n k = (k = n)"

definition example_world :: "(nat \<Rightarrow> bool) \<Rightarrow> world" where
  "example_world f =
     \<lparr>mainFirestore =
        (\<lambda>c. if c = ''Organizations''
              then [acme_doc ''A'', acme_doc ''B'', (''X'', [(''organization_id'', ''other'')]),
                    acme_doc ''C'', acme_doc ''D'', acme_doc ''E'']
              else []),
      archiveFirestore = (\<lambda>c. []), logged = [], trace = [], calls = 0, faults = f\<rparr>"

definition example_options :: "string \<Rightarrow> int \<Rightarrow> bool option \<Rightarrow> options" where
  "example_options organization n dry =
     \<lparr>liveCollection = ''Organizations'', archiveCollection = ''archive_Organizations'',
      organizationId = organization, batchSize = Some n, isDryRun = dry\<rparr>"

section \<open>How the loop forms its batches\<close>

subsection \<open>Staging below the batch size\<close>

lemma stage_all_Nil [simp]: "stage_all opts [] sw = sw"
  by (simp add: stage_all_def)

lemma stage_all_Cons: "stage_all opts (d # ds) sw = stage_all opts ds (stage opts d sw)"
  by (simp add: stage_all_def)

lemma stage_all_append:
  "stage_all opts (xs @ ys) sw = stage_all opts ys (stage_all opts xs sw)"
  by (simp add: stage_all_def)

lemma stage_operations: "operations (fst (stage opts d (s, w))) = operations s + 1"
  by (simp add: stage_def Let_def)

lemma stage_all_operations:
  "operations (fst (stage_all opts ds (s, w))) = operations s + length ds"
proof (induction ds arbitrary: s w)
  case Nil
  then show ?case by simp
next
  case (Cons d ds)
  obtain s1 w1 where st: "stage opts d (s, w) = (s1, w1)" by (cases "stage opts d (s, w)")
  have "operations s1 = operations s + 1"
    using stage_operations [of opts d s w] st by simp
  with Cons.IH [of s1 w1] st show ?case by (simp add: stage_all_Cons)
qed

lemma loop_take:
  assumes "int (operations s) + int (length xs) < the_batchSize opts
           \<or> the_batchSize opts \<le> int (operations s)"
  shows "archive_loop opts (xs @ rest) s w =
           (case stage_all opts xs (s, w) of (s1, w1) \<Rightarrow> archive_loop opts rest s1 w1)"
  using assms
proof (induction xs arbitrary: s w)
  case Nil
  then show ?case by simp
next
  case (Cons d xs)
  obtain s1 w1 where st: "stage opts d (s, w) = (s1, w1)" by (cases "stage opts d (s, w)")
  have ops: "operations s1 = operations s + 1"
    using stage_operations [of opts d s w] st by simp
  have ne: "int (operations s1) \<noteq> the_batchSize opts"
    using Cons.prems ops by auto
  have nxt: "int (operations s1) + int (length xs) < the_batchSize opts
             \<or> the_batchSize opts \<le> int (operations s1)"
    using Cons.prems ops by auto
  show ?case
    using Cons.IH [OF nxt, of w1] st ne by (simp add: stage_all_Cons)
qed

lemma loop_full:
  assumes "xs \<noteq> []" and "int (length xs) = the_batchSize opts"
  shows "archive_loop opts (xs @ rest) fresh w =
           (case stage_all opts xs (fresh, w) of
              (s1, w1) \<Rightarrow>
                (case flush_full opts s1 w1 of
                   (Inl e, w2) \<Rightarrow> (Inl e, w2)
                 | (Inr s2, w2) \<Rightarrow> archive_loop opts rest s2 w2))"
proof -
  obtain ys d where xs: "xs = ys @ [d]"
    using assms(1) by (metis rev_exhaust)
  obtain s1 w1 where st: "stage_all opts ys (fresh, w) = (s1, w1)"
    by (cases "stage_all opts ys (fresh, w)")
  have ops1: "operations s1 = length ys"
    using stage_all_operations [of opts ys fresh w] st by (simp add: fresh_def)
  obtain s2 w2 where st2: "stage opts d (s1, w1) = (s2, w2)"
    by (cases "stage opts d (s1, w1)")
  have ops2: "int (operations s2) = the_batchSize opts"
    using stage_operations [of opts d s1 w1] st2 ops1 assms(2) xs by simp
  have "int (operations fresh) + int (length ys) < the_batchSize opts"
    using assms(2) xs by (simp add: fresh_def)
  then have "archive_loop opts (ys @ d # rest) fresh w = archive_loop opts (d # rest) s1 w1"
    using loop_take [of fresh ys opts "d # rest" w] st by simp
  then show ?thesis
    using st st2 ops2 xs by (simp add: stage_all_append stage_all_Cons)
qed

subsection \<open>The loop, one batch at a time\<close>

lemma flush_full_Inr: "flush_full opts s w = (Inr s2, w2) \<Longrightarrow> s2 = fresh"
  by (auto simp: flush_full_def split: if_splits prod.splits sum.splits)

lemma do_full_Inr: "do_full opts b w = (Inr s2, w2) \<Longrightarrow> s2 = fresh"
  by (auto simp: do_full_def split: prod.splits dest: flush_full_Inr)

lemma batches_short:
  assumes "int (length docs) < the_batchSize opts \<or> the_batchSize opts \<le> 0"
  shows "archive_batches opts docs w = do_last opts docs w"
proof -
  have "int (operations fresh) + int (length docs) < the_batchSize opts
        \<or> the_batchSize opts \<le> int (operations fresh)"
    using assms by (simp add: fresh_def)
  from loop_take [OF this, of "[]" w] show ?thesis
    by (simp add: archive_batches_def do_last_def split: prod.splits)
qed

lemma batches_long:
  assumes "1 \<le> the_batchSize opts" and "the_batchSize opts \<le> int (length docs)"
  shows "archive_batches opts docs w =
           (case do_full opts (take (nat (the_batchSize opts)) docs) w of
              (Inl e, w2) \<Rightarrow> (Inl e, w2)
            | (Inr s2, w2) \<Rightarrow> archive_batches opts (drop (nat (the_batchSize opts)) docs) w2)"
proof -
  let ?n = "nat (the_batchSize opts)"
  have ne: "take ?n docs \<noteq> []" using assms by auto
  have len: "int (length (take ?n docs)) = the_batchSize opts" using assms by auto
  have "archive_loop opts (take ?n docs @ drop ?n docs) fresh w =
           (case stage_all opts (take ?n docs) (fresh, w) of
              (s1, w1) \<Rightarrow>
                (case flush_full opts s1 w1 of
                   (Inl e, w2) \<Rightarrow> (Inl e, w2)
                 | (Inr s2, w2) \<Rightarrow> archive_loop opts (drop ?n docs) s2 w2))"
    by (rule loop_full [OF ne len])
  then show ?thesis
    by (auto simp: archive_batches_def do_full_def split: prod.splits sum.splits
             dest: flush_full_Inr)
qed

subsection \<open>What staging a batch does\<close>

lemma stage_all_live:
  assumes "\<not> the_isDryRun opts"
  shows "stage_all opts b (s, w) =
           (s\<lparr>batch := batch s @ map (delete_of opts) b,
              archiveBatch := archiveBatch s @ map (set_of opts) b,
              operations := operations s + length b\<rparr>,
            w\<lparr>trace := trace w @ stage_events opts b\<rparr>)"
proof (induction b arbitrary: s w)
  case Nil
  then show ?case by (simp add: stage_events_def)
next
  case (Cons d b)
  show ?case
    using assms by (simp add: stage_all_Cons stage_def Cons.IH stage_events_def)
qed

lemma stage_all_dry:
  assumes "the_isDryRun opts"
  shows "stage_all opts b (s, w) =
           (s\<lparr>operations := operations s + length b\<rparr>,
            w\<lparr>logged := logged w @ map (\<lambda>d. LogInfo (Dry_doc (doc_id d))) b\<rparr>)"
proof (induction b arbitrary: s w)
  case Nil
  then show ?case by simp
next
  case (Cons d b)
  show ?case
    using assms by (simp add: stage_all_Cons stage_def Cons.IH logger_info_def)
qed

subsection \<open>The loop commits the batches of the partition\<close>

lemma do_last_Nil: "do_last opts [] w = (Inr (), w)"
  by (simp add: do_last_def flush_last_def fresh_def)

lemma spec_batches_Nil [simp]: "spec_batches n [] = []"
  by (simp add: spec_batches.simps)

lemma spec_batches_zero: "xs \<noteq> [] \<Longrightarrow> spec_batches 0 xs = [xs]"
  by (simp add: spec_batches.simps)

lemma spec_batches_short: "xs \<noteq> [] \<Longrightarrow> length xs \<le> n \<Longrightarrow> spec_batches n xs = [xs]"
  by (simp add: spec_batches.simps [of n xs])

lemma spec_batches_long:
  "0 < n \<Longrightarrow> n \<le> length xs \<Longrightarrow>
   spec_batches n xs = take n xs # spec_batches n (drop n xs)"
  by (auto simp: spec_batches.simps [of n xs])

lemma batches_refine:
  "archive_batches opts docs w = run_batches opts (spec_batches (nat (the_batchSize opts)) docs) w"
proof (induction docs arbitrary: w rule: length_induct)
  case (1 docs)
  let ?B = "the_batchSize opts"
  show ?case
  proof (cases "docs = []")
    case True
    have "int (length docs) < ?B \<or> ?B \<le> 0" using True by auto
    from batches_short [OF this, of w] True show ?thesis
      by (simp add: do_last_Nil)
  next
    case ne: False
    show ?thesis
    proof (cases "1 \<le> ?B \<and> ?B \<le> int (length docs)")
      case True
      then have pos: "0 < nat ?B" and le: "nat ?B \<le> length docs" by auto
      have shorter: "length (drop (nat ?B) docs) < length docs"
        using pos ne by simp
      have full: "int (length (take (nat ?B) docs)) = ?B" using True by auto
      have ih: "\<And>w2. archive_batches opts (drop (nat ?B) docs) w2 =
                  run_batches opts (spec_batches (nat ?B) (drop (nat ?B) docs)) w2"
        using "1.IH" shorter by blast
      show ?thesis
        using True full ih batches_long [of opts docs w]
        by (simp add: spec_batches_long [OF pos le] split: prod.splits sum.splits)
    next
      case False
      then have short: "int (length docs) < ?B \<or> ?B \<le> 0" by auto
      have "0 < length docs" using ne by simp
      then have part: "int (length docs) \<noteq> ?B" using short by linarith
      have sb: "spec_batches (nat ?B) docs = [docs]"
      proof (cases "?B \<le> 0")
        case True
        then show ?thesis using ne by (simp add: spec_batches_zero)
      next
        case False
        with short have "length docs \<le> nat ?B" by auto
        then show ?thesis using ne by (simp add: spec_batches_short)
      qed
      show ?thesis
        using batches_short [OF short, of w] part
        by (auto simp: sb split: prod.splits sum.splits)
    qed
  qed
qed

subsection \<open>The two commits of a batch\<close>

lemma commit_both_cases:
  "commit_both s w =
     (if faults w (calls w)
      then (Inl (CommitError ArchiveFirestore),
            w\<lparr>trace := trace w @ [Commit ArchiveFirestore (archiveBatch s) False],
              calls := calls w + 1\<rparr>)
      else if faults w (calls w + 1)
      then (Inl (CommitError MainFirestore),
            w\<lparr>trace := trace w @ [Commit ArchiveFirestore (archiveBatch s) True,
                                    Commit MainFirestore (batch s) False],
              calls := calls w + 2,
              archiveFirestore := apply_ops (archiveBatch s) (archiveFirestore w)\<rparr>)
      else (Inr (),
            w\<lparr>trace := trace w @ [Commit ArchiveFirestore (archiveBatch s) True,
                                    Commit MainFirestore (batch s) True],
              calls := calls w + 2,
              archiveFirestore := apply_ops (archiveBatch s) (archiveFirestore w),
              mainFirestore := apply_ops (batch s) (mainFirestore w)\<rparr>))"
  by (simp add: commit_both_def commit_def on_sink_def Let_def)

lemma staged_commit_live:
  assumes "\<not> the_isDryRun opts"
  shows "(case stage_all opts b (fresh, w) of (s1, w1) \<Rightarrow> commit_both s1 w1) =
     (if faults w (calls w)
      then (Inl (CommitError ArchiveFirestore),
            w\<lparr>trace := trace w @ stage_events opts b
                        @ [Commit ArchiveFirestore (map (set_of opts) b) False],
              calls := calls w + 1\<rparr>)
      else if faults w (calls w + 1)
      then (Inl (CommitError MainFirestore),
            w\<lparr>trace := trace w @ stage_events opts b
                        @ [Commit ArchiveFirestore (map (set_of opts) b) True,
                           Commit MainFirestore (map (delete_of opts) b) False],
              calls := calls w + 2,
              archiveFirestore := apply_ops (map (set_of opts) b) (archiveFirestore w)\<rparr>)
      else (Inr (),
            w\<lparr>trace := trace w @ batch_events opts b,
              calls := calls w + 2,
              archiveFirestore := apply_ops (map (set_of opts) b) (archiveFirestore w),
              mainFirestore := apply_ops (map (delete_of opts) b) (mainFirestore w)\<rparr>))"
  by (simp add: stage_all_live [OF assms] commit_both_cases fresh_def batch_events_def)

lemma do_full_live:
  assumes "\<not> the_isDryRun opts"
  shows "do_full opts b w =
     (case (case stage_all opts b (fresh, w) of (s1, w1) \<Rightarrow> commit_both s1 w1) of
        (Inl e, w2) \<Rightarrow> (Inl e, w2)
      | (Inr _, w2) \<Rightarrow> (Inr fresh, logger_info (Archived (length b)) w2))"
proof -
  obtain s1 w1 where st: "stage_all opts b (fresh, w) = (s1, w1)"
    by (cases "stage_all opts b (fresh, w)")
  have "operations s1 = length b"
    using stage_all_operations [of opts b fresh w] st by (simp add: fresh_def)
  then show ?thesis
    using assms st by (simp add: do_full_def flush_full_def split: prod.splits sum.splits)
qed

lemma do_last_live:
  assumes "\<not> the_isDryRun opts" and "b \<noteq> []"
  shows "do_last opts b w =
     (case (case stage_all opts b (fresh, w) of (s1, w1) \<Rightarrow> commit_both s1 w1) of
        (Inl e, w2) \<Rightarrow> (Inl e, w2)
      | (Inr _, w2) \<Rightarrow> (Inr (), logger_info (Archived_last (length b)) w2))"
proof -
  obtain s1 w1 where st: "stage_all opts b (fresh, w) = (s1, w1)"
    by (cases "stage_all opts b (fresh, w)")
  have "operations s1 = length b"
    using stage_all_operations [of opts b fresh w] st by (simp add: fresh_def)
  then show ?thesis
    using assms st by (simp add: do_last_def flush_last_def split: prod.splits sum.splits)
qed

lemma do_full_dry:
  assumes "the_isDryRun opts"
  shows "do_full opts b w =
     (Inr fresh, w\<lparr>logged := logged w @ map (\<lambda>d. LogInfo (Dry_doc (doc_id d))) b
                                   @ [LogInfo (Dry_batch (length b))]\<rparr>)"
  using assms
  by (simp add: do_full_def stage_all_dry flush_full_def logger_info_def fresh_def)

lemma do_last_dry:
  assumes "the_isDryRun opts" and "b \<noteq> []"
  shows "do_last opts b w =
     (Inr (), w\<lparr>logged := logged w @ map (\<lambda>d. LogInfo (Dry_doc (doc_id d))) b
                                   @ [LogInfo (Dry_last (length b))]\<rparr>)"
  using assms
  by (simp add: do_last_def stage_all_dry flush_last_def logger_info_def fresh_def)

subsection \<open>Batches that the backend accepts\<close>

lemma log_samples_eq: "log_samples docs w = w\<lparr>logged := logged w @ sample_lines docs\<rparr>"
proof -
  have "fold (\<lambda>d. logger_info (Document_sample (doc_id d) (organization_id_text d))) xs w =
        w\<lparr>logged := logged w @
             map (\<lambda>d. LogInfo (Document_sample (doc_id d) (organization_id_text d))) xs\<rparr>"
    for xs
    by (induction xs arbitrary: w) (simp_all add: logger_info_def)
  then show ?thesis by (simp add: log_samples_def sample_lines_def)
qed

lemma run_batches_live:
  assumes "\<not> the_isDryRun opts" and "\<forall>b\<in>set bs. b \<noteq> []" and "\<forall>k. \<not> faults w k"
  shows "run_batches opts bs w = (Inr (), fold (after_batch opts) bs w)"
  using assms(2,3)
proof (induction bs arbitrary: w)
  case Nil
  then show ?case by simp
next
  case (Cons b bs)
  have ne: "b \<noteq> []" and rest: "\<forall>b\<in>set bs. b \<noteq> []" using Cons.prems(1) by auto
  have nf: "\<not> faults w (calls w)" "\<not> faults w (Suc (calls w))" using Cons.prems(2) by auto
  have nf': "\<forall>k. \<not> faults (after_batch opts b w) k"
    using Cons.prems(2) by (simp add: after_batch_def)
  have full: "int (length b) = the_batchSize opts \<Longrightarrow>
                do_full opts b w = (Inr fresh, after_batch opts b w)"
    using nf
    by (simp add: do_full_live [OF assms(1)] staged_commit_live [OF assms(1)]
          after_batch_def summary_def logger_info_def)
  have part: "int (length b) \<noteq> the_batchSize opts \<Longrightarrow>
                do_last opts b w = (Inr (), after_batch opts b w)"
    using nf
    by (simp add: do_last_live [OF assms(1) ne] staged_commit_live [OF assms(1)]
          after_batch_def summary_def logger_info_def)
  show ?case
    using full part Cons.IH [OF rest nf'] by simp
qed

lemma run_batches_dry:
  assumes "the_isDryRun opts" and "\<forall>b\<in>set bs. b \<noteq> []"
  shows "run_batches opts bs w =
           (Inr (), w\<lparr>logged := logged w @ concat (map (dry_lines opts) bs)\<rparr>)"
  using assms(2)
proof (induction bs arbitrary: w)
  case Nil
  then show ?case by simp
next
  case (Cons b bs)
  have ne: "b \<noteq> []" and rest: "\<forall>b\<in>set bs. b \<noteq> []" using Cons.prems(1) by auto
  show ?case
    using Cons.IH [OF rest]
    by (simp add: do_full_dry [OF assms(1)] do_last_dry [OF assms(1) ne] dry_lines_def)
qed

lemma fold_after_batch_trace:
  "trace (fold (after_batch opts) bs w) = trace w @ concat (map (batch_events opts) bs)"
  by (induction bs arbitrary: w) (simp_all add: after_batch_def)

lemma fold_after_batch_logged:
  "logged (fold (after_batch opts) bs w) = logged w @ map (summary opts) bs"
  by (induction bs arbitrary: w) (simp_all add: after_batch_def)

lemma fold_after_batch_calls:
  "calls (fold (after_batch opts) bs w) = calls w + 2 * length bs"
  by (induction bs arbitrary: w) (simp_all add: after_batch_def)

lemma fold_after_batch_faults:
  "faults (fold (after_batch opts) bs w) = faults w"
  by (induction bs arbitrary: w) (simp_all add: after_batch_def)

lemma apply_ops_append: "apply_ops (xs @ ys) db = apply_ops ys (apply_ops xs db)"
  by (simp add: apply_ops_def)

lemma fold_after_batch_archive:
  "archiveFirestore (fold (after_batch opts) bs w) =
     apply_ops (map (set_of opts) (concat bs)) (archiveFirestore w)"
  by (induction bs arbitrary: w) (simp_all add: after_batch_def apply_ops_append apply_ops_def)

lemma fold_after_batch_main:
  "mainFirestore (fold (after_batch opts) bs w) =
     apply_ops (map (delete_of opts) (concat bs)) (mainFirestore w)"
  by (induction bs arbitrary: w) (simp_all add: after_batch_def apply_ops_append apply_ops_def)

lemma fold_after_batch_eq:
  "fold (after_batch opts) bs w =
     w\<lparr>trace := trace w @ concat (map (batch_events opts) bs),
       calls := calls w + 2 * length bs,
       archiveFirestore := apply_ops (map (set_of opts) (concat bs)) (archiveFirestore w),
       mainFirestore := apply_ops (map (delete_of opts) (concat bs)) (mainFirestore w),
       logged := logged w @ map (summary opts) bs\<rparr>"
  by (rule world.equality)
     (simp_all add: fold_after_batch_trace fold_after_batch_logged fold_after_batch_calls
        fold_after_batch_faults fold_after_batch_archive fold_after_batch_main)

subsection \<open>Properties of the partition\<close>

lemma concat_spec_batches: "concat (spec_batches n xs) = xs"
proof (induction n xs rule: spec_batches.induct)
  case (1 n xs)
  then show ?case by (simp add: spec_batches.simps [of n xs])
qed

lemma spec_batches_nonempty: "\<forall>b\<in>set (spec_batches n xs). b \<noteq> []"
proof (induction n xs rule: spec_batches.induct)
  case (1 n xs)
  then show ?case by (auto simp: spec_batches.simps [of n xs])
qed

lemma spec_batches_bounded: "0 < n \<Longrightarrow> \<forall>b\<in>set (spec_batches n xs). length b \<le> n"
proof (induction n xs rule: spec_batches.induct)
  case (1 n xs)
  then show ?case by (auto simp: spec_batches.simps [of n xs])
qed

lemma length_spec_batches:
  "0 < n \<Longrightarrow> length (spec_batches n xs) = (length xs + n - 1) div n"
proof (induction n xs rule: spec_batches.induct)
  case (1 n xs)
  show ?case
  proof (cases "xs = []")
    case True
    then show ?thesis using "1.prems" by simp
  next
    case False
    have ih: "length (spec_batches n (drop n xs)) = (length (drop n xs) + n - 1) div n"
      using "1.IH" False "1.prems" by simp
    show ?thesis
    proof (cases "n \<le> length xs")
      case True
      define k where "k = length (drop n xs) + n - 1"
      have e: "length xs + n - 1 = k + n"
        using True "1.prems" by (simp add: k_def)
      have "(k + n) div n = Suc (k div n)"
        using "1.prems" by simp
      then have "(length xs + n - 1) div n = Suc ((length (drop n xs) + n - 1) div n)"
        using e by (simp add: k_def)
      then show ?thesis
        using \<open>xs \<noteq> []\<close> "1.prems" ih by (simp add: spec_batches.simps [of n xs])
    next
      case False
      have e: "length xs + n - 1 = (length xs - 1) + n"
        using \<open>xs \<noteq> []\<close> by (cases xs) simp_all
      have "(length xs - 1) div n = 0" using False by simp
      then have "(length xs + n - 1) div n = 1"
        using "1.prems" by (simp only: e) simp
      then show ?thesis
        using False \<open>xs \<noteq> []\<close> "1.prems" ih by (simp add: spec_batches.simps [of n xs])
    qed
  qed
qed

lemma last_spec_batches:
  "0 < n \<Longrightarrow> xs \<noteq> [] \<Longrightarrow>
   length (last (spec_batches n xs)) = (if length xs mod n = 0 then n else length xs mod n)"
proof (induction n xs rule: spec_batches.induct)
  case (1 n xs)
  show ?case
  proof (cases "n < length xs")
    case True
    then have rest: "drop n xs \<noteq> []" by simp
    then have ne: "spec_batches n (drop n xs) \<noteq> []"
      using "1.prems" by (simp add: spec_batches.simps [of n "drop n xs"])
    have ih: "length (last (spec_batches n (drop n xs))) =
                (if length (drop n xs) mod n = 0 then n else length (drop n xs) mod n)"
      using "1.IH" "1.prems" rest by simp
    have m: "length (drop n xs) mod n = length xs mod n"
      using True by (simp add: le_mod_geq)
    show ?thesis
      using "1.prems" rest ne ih m by (simp add: spec_batches.simps [of n xs])
  next
    case False
    then have one: "spec_batches n xs = [xs]"
      using "1.prems" by (simp add: spec_batches.simps [of n xs])
    show ?thesis
      using False "1.prems" by (cases "length xs = n") (simp_all add: one)
  qed
qed

lemma ceiling_batches:
  assumes "0 < n"
  shows "int ((m + n - 1) div n) = \<lceil>real m / real n\<rceil>"
proof -
  define q where "q = (m + n - 1) div n"
  have "q * n \<le> m + n - 1" by (simp add: q_def)
  then have lo: "q * n < m + n" using assms by linarith
  have "m + n - 1 < n + q * n"
    unfolding q_def using assms by (rule dividend_less_div_times)
  then have hi: "m \<le> q * n" by linarith
  have rn: "0 < real n" using assms by simp
  have "real (q * n) < real (m + n)" using lo by (simp only: of_nat_less_iff)
  then have "(real q - 1) * real n < real m" by (simp add: algebra_simps)
  then have a: "real_of_int (int q) - 1 < real m / real n"
    using rn by (simp add: pos_less_divide_eq)
  have "real m \<le> real (q * n)" using hi by (simp only: of_nat_le_iff)
  then have "real m \<le> real q * real n" by simp
  then have b: "real m / real n \<le> real_of_int (int q)"
    using rn by (simp add: pos_divide_le_eq)
  have "\<lceil>real m / real n\<rceil> = int q" using a b by (rule ceiling_unique)
  then show ?thesis by (simp add: q_def)
qed

subsection \<open>The archival function, run by run\<close>

lemma archive_try_live:
  assumes "\<not> the_isDryRun opts" and "\<forall>k. \<not> faults w k" and "matched opts w \<noteq> []"
  shows "archive_try opts w =
           (Inr (),
            w\<lparr>trace := trace w @
                 Query (liveCollection opts) (organizationId opts) True
                 # spec_events opts (matched opts w),
              calls := calls w + 1 + 2 * length (batches_of opts w),
              archiveFirestore :=
                apply_ops (map (set_of opts) (matched opts w)) (archiveFirestore w),
              mainFirestore :=
                apply_ops (map (delete_of opts) (matched opts w)) (mainFirestore w),
              logged := logged w @ opening_lines opts (matched opts w)
                        @ map (summary opts) (batches_of opts w) @ [LogInfo Completed]\<rparr>)"
proof -
  let ?docs = "matched opts w"
  let ?bs = "batches_of opts w"
  define w1 where
    "w1 = w\<lparr>trace := trace w @ [Query (liveCollection opts) (organizationId opts) True],
             calls := calls w + 1,
             logged := logged w @ opening_lines opts ?docs\<rparr>"
  have nf: "\<forall>k. \<not> faults w1 k" using assms(2) by (simp add: w1_def)
  have ne: "\<forall>b\<in>set ?bs. b \<noteq> []"
    by (simp add: batches_of_def spec_batches_nonempty)
  have run: "archive_batches opts ?docs w1 = (Inr (), fold (after_batch opts) ?bs w1)"
    using run_batches_live [OF assms(1) ne nf]
    by (simp add: batches_refine batches_of_def)
  have "archive_try opts w =
          (Inr (), logger_info Completed (fold (after_batch opts) ?bs w1))"
    using assms(2,3) run
    by (simp add: archive_try_def query_get_def Let_def logger_info_def log_samples_eq
          matched_def opening_lines_def w1_def)
  then show ?thesis
    by (simp add: fold_after_batch_eq logger_info_def w1_def
          spec_events_def batches_of_def concat_spec_batches)
qed

lemma archive_catch:
  "archiveContactsDocuments opts w =
     (Inr (), case fst (archive_try opts w) of
                Inl e \<Rightarrow> logger_error Error_archival (Some e) (snd (archive_try opts w))
              | Inr _ \<Rightarrow> snd (archive_try opts w))"
  by (simp add: archiveContactsDocuments_def split: prod.splits sum.splits)

lemma archive_returns: "archive_try opts w = (Inr u, w') \<Longrightarrow> archiveContactsDocuments opts w = (Inr (), w')"
  by (simp add: archive_catch)

lemmas archive_live_run = archive_returns [OF archive_try_live]

lemma archive_try_dry:
  assumes "the_isDryRun opts" and "\<not> faults w (calls w)" and "matched opts w \<noteq> []"
  shows "archive_try opts w =
           (Inr (),
            w\<lparr>trace := trace w @ [Query (liveCollection opts) (organizationId opts) True],
              calls := calls w + 1,
              logged := logged w @ opening_lines opts (matched opts w)
                        @ concat (map (dry_lines opts) (batches_of opts w))
                        @ [LogInfo Completed]\<rparr>)"
proof -
  let ?docs = "matched opts w"
  let ?bs = "batches_of opts w"
  define w1 where
    "w1 = w\<lparr>trace := trace w @ [Query (liveCollection opts) (organizationId opts) True],
             calls := calls w + 1,
             logged := logged w @ opening_lines opts ?docs\<rparr>"
  have ne: "\<forall>b\<in>set ?bs. b \<noteq> []"
    by (simp add: batches_of_def spec_batches_nonempty)
  have run: "archive_batches opts ?docs w1 =
               (Inr (), w1\<lparr>logged := logged w1 @ concat (map (dry_lines opts) ?bs)\<rparr>)"
    using run_batches_dry [OF assms(1) ne]
    by (simp add: batches_refine batches_of_def)
  have "archive_try opts w =
          (Inr (), logger_info Completed
                     (w1\<lparr>logged := logged w1 @ concat (map (dry_lines opts) ?bs)\<rparr>))"
    using assms(2,3) run
    by (simp add: archive_try_def query_get_def Let_def logger_info_def log_samples_eq
          matched_def opening_lines_def w1_def)
  then show ?thesis
    by (simp add: logger_info_def w1_def)
qed

lemmas archive_dry_run = archive_returns [OF archive_try_dry]

lemma archive_try_rejected:
  assumes "faults w (calls w)"
  shows "archive_try opts w =
           (Inl QueryError,
            w\<lparr>trace := trace w @ [Query (liveCollection opts) (organizationId opts) False],
              calls := calls w + 1,
              logged := logged w @
                [LogInfo (Starting (organizationId opts) (liveCollection opts)
                            (archiveCollection opts))]\<rparr>)"
  using assms by (simp add: archive_try_def query_get_def Let_def logger_info_def)

lemma archive_query_rejected:
  assumes "faults w (calls w)"
  shows "archiveContactsDocuments opts w =
           (Inr (),
            w\<lparr>trace := trace w @ [Query (liveCollection opts) (organizationId opts) False],
              calls := calls w + 1,
              logged := logged w @
                [LogInfo (Starting (organizationId opts) (liveCollection opts)
                            (archiveCollection opts)),
                 LogError Error_archival (Some QueryError)]\<rparr>)"
  by (simp add: archive_catch archive_try_rejected [OF assms] logger_error_def)

lemma archive_try_no_match:
  assumes "\<not> faults w (calls w)" and "matched opts w = []"
  shows "archive_try opts w =
           (Inr (),
            w\<lparr>trace := trace w @ [Query (liveCollection opts) (organizationId opts) True],
              calls := calls w + 1,
              logged := logged w @
                [LogInfo (Starting (organizationId opts) (liveCollection opts)
                            (archiveCollection opts)),
                 LogInfo No_match]\<rparr>)"
  using assms by (simp add: archive_try_def query_get_def Let_def logger_info_def matched_def)

lemmas archive_no_match = archive_returns [OF archive_try_no_match]

subsection \<open>Batches that the backend may reject\<close>

lemma ends_with_append:
  assumes "\<forall>e\<in>set pre. error_of e = None" and "ends_with r tr"
  shows "ends_with r (pre @ tr)"
proof (cases r)
  case (Inl e)
  with assms(2) have ne: "tr \<noteq> []" by (simp add: ends_with_def)
  then have "butlast (pre @ tr) = pre @ butlast tr" by (simp add: butlast_append)
  then show ?thesis
    using assms Inl ne by (auto simp: ends_with_def)
next
  case (Inr a)
  then show ?thesis using assms by (auto simp: ends_with_def)
qed

lemma error_of_stage_events: "\<forall>e\<in>set (stage_events opts b). error_of e = None"
  by (induction b) (auto simp: stage_events_def)

lemma error_of_batch_events: "\<forall>e\<in>set (batch_events opts b). error_of e = None"
  using error_of_stage_events [of opts b] by (auto simp: batch_events_def)

lemma accepted_stage_events: "map accepted (stage_events opts b) = stage_events opts b"
  by (induction b) (auto simp: stage_events_def)

lemma accepted_batch_events: "map accepted (batch_events opts b) = batch_events opts b"
  by (simp add: batch_events_def accepted_stage_events)

lemma committed_append: "committed s (xs @ ys) = committed s xs @ committed s ys"
  by (induction s xs rule: committed.induct) simp_all

lemma committed_stage_events: "committed s (stage_events opts b) = []"
  by (induction b) (auto simp: stage_events_def)

lemma committed_batch_events:
  "committed ArchiveFirestore (batch_events opts b) = [map (set_of opts) b]"
  "committed MainFirestore (batch_events opts b) = [map (delete_of opts) b]"
  by (simp_all add: batch_events_def committed_append committed_stage_events)

lemma run_batches_step:
  "run_batches opts (b # bs) w =
     (case batch_step opts b w of
        (Inl e, w2) \<Rightarrow> (Inl e, w2)
      | (Inr _, w2) \<Rightarrow> run_batches opts bs w2)"
  by (simp add: batch_step_def split: prod.splits sum.splits)

lemma batch_step_live:
  assumes "\<not> the_isDryRun opts" and "b \<noteq> []"
  shows "batch_step opts b w =
     (if faults w (calls w)
      then (Inl (CommitError ArchiveFirestore),
            w\<lparr>trace := trace w @ stage_events opts b
                        @ [Commit ArchiveFirestore (map (set_of opts) b) False],
              calls := calls w + 1\<rparr>)
      else if faults w (calls w + 1)
      then (Inl (CommitError MainFirestore),
            w\<lparr>trace := trace w @ stage_events opts b
                        @ [Commit ArchiveFirestore (map (set_of opts) b) True,
                           Commit MainFirestore (map (delete_of opts) b) False],
              calls := calls w + 2,
              archiveFirestore := apply_ops (map (set_of opts) b) (archiveFirestore w)\<rparr>)
      else (Inr (), after_batch opts b w))"
  by (simp add: batch_step_def do_full_live [OF assms(1)] do_last_live [OF assms]
        staged_commit_live [OF assms(1)] after_batch_def summary_def logger_info_def)

lemma tracks_trans:
  assumes "tracks w tr1 w1" and "tracks w1 tr2 w2"
  shows "tracks w (tr1 @ tr2) w2"
  using assms prefix_order.trans [of "logged w" "logged w1" "logged w2"]
  by (simp add: tracks_def committed_append apply_ops_append)

lemma batch_step_tracks:
  assumes "\<not> the_isDryRun opts" and "b \<noteq> []"
  shows "\<exists>tr. tracks w tr (snd (batch_step opts b w))
              \<and> ends_with (fst (batch_step opts b w)) tr
              \<and> prefix (map accepted tr) (batch_events opts b)
              \<and> (fst (batch_step opts b w) = Inr () \<longrightarrow> tr = batch_events opts b)"
proof -
  let ?st = "stage_events opts b"
  let ?A = "map (set_of opts) b"
  let ?M = "map (delete_of opts) b"
  consider (a) "faults w (calls w)"
    | (m) "\<not> faults w (calls w)" "faults w (calls w + 1)"
    | (ok) "\<not> faults w (calls w)" "\<not> faults w (calls w + 1)"
    by blast
  then show ?thesis
  proof cases
    case a
    let ?tr = "?st @ [Commit ArchiveFirestore ?A False]"
    have "tracks w ?tr (snd (batch_step opts b w))"
      using a by (simp add: batch_step_live [OF assms] tracks_def committed_append
            committed_stage_events apply_ops_def)
    moreover have "ends_with (fst (batch_step opts b w)) ?tr"
      using a error_of_stage_events [of opts b]
      by (simp add: batch_step_live [OF assms] ends_with_def butlast_append)
    moreover have "prefix (map accepted ?tr) (batch_events opts b)"
      by (simp add: batch_events_def accepted_stage_events)
    moreover have "fst (batch_step opts b w) \<noteq> Inr ()"
      using a by (simp add: batch_step_live [OF assms])
    ultimately show ?thesis by blast
  next
    case m
    let ?tr = "?st @ [Commit ArchiveFirestore ?A True, Commit MainFirestore ?M False]"
    have "tracks w ?tr (snd (batch_step opts b w))"
      using m by (simp add: batch_step_live [OF assms] tracks_def committed_append
            committed_stage_events apply_ops_def)
    moreover have "ends_with (fst (batch_step opts b w)) ?tr"
      using m error_of_stage_events [of opts b]
      by (simp add: batch_step_live [OF assms] ends_with_def butlast_append)
    moreover have "prefix (map accepted ?tr) (batch_events opts b)"
      by (simp add: batch_events_def accepted_stage_events)
    moreover have "fst (batch_step opts b w) \<noteq> Inr ()"
      using m by (simp add: batch_step_live [OF assms])
    ultimately show ?thesis by blast
  next
    case ok
    let ?tr = "batch_events opts b"
    have "tracks w ?tr (snd (batch_step opts b w))"
      using ok by (simp add: batch_step_live [OF assms] tracks_def committed_batch_events
            after_batch_def apply_ops_def)
    moreover have "ends_with (fst (batch_step opts b w)) ?tr"
      using ok error_of_batch_events [of opts b]
      by (simp add: batch_step_live [OF assms] ends_with_def)
    moreover have "prefix (map accepted ?tr) (batch_events opts b)"
      by (simp add: accepted_batch_events)
    ultimately show ?thesis by blast
  qed
qed

lemma run_batches_tracks:
  assumes "\<not> the_isDryRun opts" and "\<forall>b\<in>set bs. b \<noteq> []"
  shows "\<exists>tr. tracks w tr (snd (run_batches opts bs w))
              \<and> ends_with (fst (run_batches opts bs w)) tr
              \<and> prefix (map accepted tr) (concat (map (batch_events opts) bs))"
  using assms(2)
proof (induction bs arbitrary: w)
  case Nil
  have "tracks w [] w" by (simp add: tracks_def apply_ops_def)
  then show ?case by (auto simp: ends_with_def)
next
  case (Cons b bs)
  have ne: "b \<noteq> []" and rest: "\<forall>b\<in>set bs. b \<noteq> []" using Cons.prems by auto
  obtain r w2 where step: "batch_step opts b w = (r, w2)" by (cases "batch_step opts b w")
  obtain tr1 where t1: "tracks w tr1 w2" and e1: "ends_with r tr1"
    and p1: "prefix (map accepted tr1) (batch_events opts b)"
    and ok1: "r = Inr () \<longrightarrow> tr1 = batch_events opts b"
    using batch_step_tracks [OF assms(1) ne, of w] step by auto
  show ?case
  proof (cases r)
    case (Inl e)
    then have run: "run_batches opts (b # bs) w = (Inl e, w2)"
      using step by (subst run_batches_step) simp
    have "prefix (map accepted tr1) (concat (map (batch_events opts) (b # bs)))"
      using p1 by simp
    then show ?thesis using run t1 e1 Inl by auto
  next
    case (Inr u)
    then have run: "run_batches opts (b # bs) w = run_batches opts bs w2"
      using step by (subst run_batches_step) simp
    have tr1: "tr1 = batch_events opts b" using ok1 Inr by simp
    obtain tr2 where t2: "tracks w2 tr2 (snd (run_batches opts bs w2))"
      and e2: "ends_with (fst (run_batches opts bs w2)) tr2"
      and p2: "prefix (map accepted tr2) (concat (map (batch_events opts) bs))"
      using Cons.IH [OF rest, of w2] by auto
    have "tracks w (tr1 @ tr2) (snd (run_batches opts bs w2))"
      using t1 t2 by (rule tracks_trans)
    moreover have "ends_with (fst (run_batches opts bs w2)) (tr1 @ tr2)"
      using error_of_batch_events [of opts b] e2 unfolding tr1 by (rule ends_with_append)
    moreover have "prefix (map accepted (tr1 @ tr2)) (concat (map (batch_events opts) (b # bs)))"
      using p2 by (simp add: tr1 accepted_batch_events)
    ultimately show ?thesis using run by auto
  qed
qed

lemma archive_try_tracks:
  "\<exists>tr. tracks w tr (snd (archive_try opts w))
        \<and> ends_with (fst (archive_try opts w)) tr
        \<and> prefix (map accepted tr)
            (Query (liveCollection opts) (organizationId opts) True
             # spec_events opts (matched opts w))"
proof -
  let ?q = "Query (liveCollection opts) (organizationId opts)"
  let ?docs = "matched opts w"
  consider (rejected) "faults w (calls w)"
    | (none) "\<not> faults w (calls w)" "?docs = []"
    | (dry) "\<not> faults w (calls w)" "?docs \<noteq> []" "the_isDryRun opts"
    | (live) "\<not> faults w (calls w)" "?docs \<noteq> []" "\<not> the_isDryRun opts"
    by blast
  then show ?thesis
  proof cases
    case rejected
    have "tracks w [?q False] (snd (archive_try opts w))"
      and "ends_with (fst (archive_try opts w)) [?q False]"
      by (simp_all add: archive_try_rejected [OF rejected] tracks_def ends_with_def
            apply_ops_def)
    moreover have "prefix (map accepted [?q False]) (?q True # spec_events opts ?docs)"
      by simp
    ultimately show ?thesis by blast
  next
    case none
    have "tracks w [?q True] (snd (archive_try opts w))"
      and "ends_with (fst (archive_try opts w)) [?q True]"
      by (simp_all add: archive_try_no_match [OF none] tracks_def ends_with_def apply_ops_def)
    moreover have "prefix (map accepted [?q True]) (?q True # spec_events opts ?docs)"
      by simp
    ultimately show ?thesis by blast
  next
    case dry
    have "tracks w [?q True] (snd (archive_try opts w))"
      and "ends_with (fst (archive_try opts w)) [?q True]"
      by (simp_all add: archive_try_dry [OF dry(3,1,2)] tracks_def ends_with_def apply_ops_def)
    moreover have "prefix (map accepted [?q True]) (?q True # spec_events opts ?docs)"
      by simp
    ultimately show ?thesis by blast
  next
    case live
    define w1 where
      "w1 = w\<lparr>trace := trace w @ [?q True], calls := calls w + 1,
               logged := logged w @ opening_lines opts ?docs\<rparr>"
    let ?run = "run_batches opts (batches_of opts w) w1"
    have t0: "tracks w [?q True] w1"
      by (simp add: w1_def tracks_def apply_ops_def)
    have ne: "\<forall>b\<in>set (batches_of opts w). b \<noteq> []"
      by (simp add: batches_of_def spec_batches_nonempty)
    obtain tr where t1: "tracks w1 tr (snd ?run)" and e1: "ends_with (fst ?run) tr"
      and p1: "prefix (map accepted tr) (spec_events opts ?docs)"
      using run_batches_tracks [OF live(3) ne, of w1]
      by (auto simp: spec_events_def batches_of_def)
    have unfolded: "archive_try opts w =
                 (case ?run of
                    (Inl e, w2) \<Rightarrow> (Inl e, w2)
                  | (Inr _, w2) \<Rightarrow> (Inr (), logger_info Completed w2))"
      using live
      by (simp add: archive_try_def query_get_def Let_def logger_info_def log_samples_eq
            matched_def opening_lines_def w1_def batches_refine batches_of_def)
    have "tracks w1 tr (snd (archive_try opts w))"
      using t1 by (auto simp: unfolded tracks_def logger_info_def split: prod.splits sum.splits)
    with t0 have "tracks w ([?q True] @ tr) (snd (archive_try opts w))"
      by (rule tracks_trans)
    moreover have "ends_with (fst (archive_try opts w)) tr"
      using e1 by (auto simp: unfolded ends_with_def split: prod.splits sum.splits)
    then have "ends_with (fst (archive_try opts w)) ([?q True] @ tr)"
      by (intro ends_with_append) simp_all
    moreover have "prefix (map accepted ([?q True] @ tr)) (?q True # spec_events opts ?docs)"
      using p1 by simp
    ultimately show ?thesis by blast
  qed
qed

subsection \<open>Events of a run and the error that ends it\<close>

lemmas run_defs =
  archiveContactsDocuments_def archive_try_def archive_batches_def flush_last_def
  flush_full_def commit_both_def commit_def on_sink_def query_get_def stage_def
  log_samples_def logger_info_def logger_error_def the_isDryRun_def the_batchSize_def
  set_of_def delete_of_def matching_def fresh_def apply_ops_def organization_id_text_def
  example_world_def example_options_def acme_doc_def new_events_def new_entries_def
  accepting_def rejecting_def

lemma failed_is_last:
  assumes "ends_with r (pre @ ev # post)" and "error_of ev \<noteq> None"
  shows "post = [] \<and> r = Inl (the (error_of ev))"
proof (cases r)
  case (Inl e)
  have "post = []"
  proof (rule ccontr)
    assume "post \<noteq> []"
    then have "ev \<in> set (butlast (pre @ ev # post))" by (simp add: butlast_append)
    then show False using assms Inl by (auto simp: ends_with_def)
  qed
  then show ?thesis using assms Inl by (auto simp: ends_with_def)
next
  case (Inr a)
  then show ?thesis using assms by (auto simp: ends_with_def)
qed

lemma tracks_new_events: "tracks w tr w' \<Longrightarrow> new_events w w' = tr"
  by (simp add: tracks_def new_events_def)

lemma archive_tracks:
  "\<exists>tr. tracks w tr (snd (archiveContactsDocuments opts w))
        \<and> ends_with (fst (archive_try opts w)) tr
        \<and> prefix (map accepted tr)
            (Query (liveCollection opts) (organizationId opts) True
             # spec_events opts (matched opts w))"
proof -
  obtain tr where t: "tracks w tr (snd (archive_try opts w))"
    and e: "ends_with (fst (archive_try opts w)) tr"
    and p: "prefix (map accepted tr)
              (Query (liveCollection opts) (organizationId opts) True
               # spec_events opts (matched opts w))"
    using archive_try_tracks [of w opts] by blast
  have "tracks w tr (snd (archiveContactsDocuments opts w))"
    using t by (auto simp: archive_catch tracks_def logger_error_def split: sum.splits)
  then show ?thesis using e p by blast
qed

lemma archive_logs_error:
  "fst (archive_try opts w) = Inl e \<Longrightarrow>
   last (logged (snd (archiveContactsDocuments opts w))) = LogError Error_archival (Some e)"
  by (simp add: archive_catch logger_error_def)

lemma example_not_dry: "\<not> the_isDryRun (example_options g n (Some False))"
  by (simp add: example_options_def the_isDryRun_def)

subsection \<open>What the log reports and what the sinks accepted\<close>

lemma reported_append: "reported (xs @ ys) = reported xs @ reported ys"
  by (induction xs rule: reported.induct) simp_all

lemma reported_sample_lines: "reported (sample_lines docs) = []"
proof -
  have "reported (map (\<lambda>d. LogInfo (Document_sample (doc_id d) (organization_id_text d))) xs) = []"
    for xs
    by (induction xs) simp_all
  then show ?thesis by (simp add: sample_lines_def)
qed

lemma reported_opening_lines: "reported (opening_lines opts docs) = []"
  by (simp add: opening_lines_def reported_sample_lines)

lemma reported_summaries: "reported (map (summary opts) bs) = map length bs"
  by (induction bs) (simp_all add: summary_def)

lemma reported_dry_lines: "reported (dry_lines opts b) = [length b]"
proof -
  have "reported (map (\<lambda>d. LogInfo (Dry_doc (doc_id d))) xs) = []" for xs
    by (induction xs) simp_all
  then show ?thesis by (simp add: dry_lines_def reported_append)
qed

lemma reported_dry_batches: "reported (concat (map (dry_lines opts) bs)) = map length bs"
  by (induction bs) (simp_all add: reported_append reported_dry_lines)

lemma committed_batches:
  "committed ArchiveFirestore (concat (map (batch_events opts) bs)) =
     map (map (set_of opts)) bs"
  "committed MainFirestore (concat (map (batch_events opts) bs)) =
     map (map (delete_of opts)) bs"
  by (induction bs) (simp_all add: committed_append committed_batch_events)

lemma new_events_live:
  assumes "\<not> the_isDryRun opts" and "\<forall>k. \<not> faults w k"
  shows "new_events w (snd (archiveContactsDocuments opts w)) =
           Query (liveCollection opts) (organizationId opts) True
           # spec_events opts (matched opts w)"
proof (cases "matched opts w = []")
  case True
  have "\<not> faults w (calls w)" using assms(2) by simp
  from archive_no_match [OF this True] show ?thesis
    by (simp add: new_events_def True spec_events_def)
next
  case False
  from archive_live_run [OF assms False] show ?thesis
    by (simp add: new_events_def)
qed

lemma new_entries_live:
  assumes "\<not> the_isDryRun opts" and "\<forall>k. \<not> faults w k" and "matched opts w \<noteq> []"
  shows "new_entries w (snd (archiveContactsDocuments opts w)) =
           opening_lines opts (matched opts w) @ map (summary opts) (batches_of opts w)
           @ [LogInfo Completed]"
  using archive_live_run [OF assms] by (simp add: new_entries_def)

lemma new_entries_dry:
  assumes "the_isDryRun opts" and "\<not> faults w (calls w)" and "matched opts w \<noteq> []"
  shows "new_entries w (snd (archiveContactsDocuments opts w)) =
           opening_lines opts (matched opts w)
           @ concat (map (dry_lines opts) (batches_of opts w)) @ [LogInfo Completed]"
  using archive_dry_run [OF assms] by (simp add: new_entries_def)

lemma reported_run:
  assumes "\<forall>k. \<not> faults w k" and "matched opts w \<noteq> []"
  shows "reported (new_entries w (snd (archiveContactsDocuments opts w))) =
           map length (batches_of opts w)"
proof (cases "the_isDryRun opts")
  case True
  have "\<not> faults w (calls w)" using assms(1) by simp
  from new_entries_dry [OF True this assms(2)] show ?thesis
    by (simp add: reported_append reported_opening_lines reported_dry_batches)
next
  case False
  from new_entries_live [OF False assms] show ?thesis
    by (simp add: reported_append reported_opening_lines reported_summaries)
qed

lemma example_accepting: "\<forall>k. \<not> faults (example_world accepting) k"
  by (simp add: example_world_def accepting_def)

lemma example_matched:
  "matched (example_options ''acme'' n dry) (example_world f) =
     [\<lparr>doc_id = ''A'', doc_data = [(''organization_id'', ''acme'')]\<rparr>,
      \<lparr>doc_id = ''B'', doc_data = [(''organization_id'', ''acme'')]\<rparr>,
      \<lparr>doc_id = ''C'', doc_data = [(''organization_id'', ''acme'')]\<rparr>,
      \<lparr>doc_id = ''D'', doc_data = [(''organization_id'', ''acme'')]\<rparr>,
      \<lparr>doc_id = ''E'', doc_data = [(''organization_id'', ''acme'')]\<rparr>]"
  by (simp add: matched_def matching_def example_options_def example_world_def acme_doc_def)

lemma example_batches:
  "batches_of (example_options ''acme'' 2 dry) (example_world f) =
     [ [\<lparr>doc_id = ''A'', doc_data = [(''organization_id'', ''acme'')]\<rparr>,
       \<lparr>doc_id = ''B'', doc_data = [(''organization_id'', ''acme'')]\<rparr>],
      [\<lparr>doc_id = ''C'', doc_data = [(''organization_id'', ''acme'')]\<rparr>,
       \<lparr>doc_id = ''D'', doc_data = [(''organization_id'', ''acme'')]\<rparr>],
      [\<lparr>doc_id = ''E'', doc_data = [(''organization_id'', ''acme'')]\<rparr>]]"
proof -
  have "the_batchSize (example_options ''acme'' 2 dry) = 2"
    by (simp add: the_batchSize_def example_options_def)
  then show ?thesis
    by (simp add: batches_of_def example_matched spec_batches.simps)
qed

subsection \<open>Identifiers of the batches\<close>

lemma doc_id_matching: "map doc_id (matching g coll) =
    map fst (filter (\<lambda>(i, d). map_of d ''organization_id'' = Some g) coll)"
  by (simp add: matching_def comp_def case_prod_unfold)

lemma distinct_matching:
  "distinct (map fst coll) \<Longrightarrow> distinct (map doc_id (matching g coll))"
  by (simp add: doc_id_matching distinct_map_filter)

lemma disjoint_batches:
  "distinct (concat bs) \<Longrightarrow> i < j \<Longrightarrow> j < length bs \<Longrightarrow> set (bs ! i) \<inter> set (bs ! j) = {}"
proof (induction bs arbitrary: i j)
  case Nil
  then show ?case by simp
next
  case (Cons b bs)
  obtain j' where j: "j = Suc j'" using Cons.prems(2) by (cases j) auto
  have d: "distinct (concat bs)" and dis: "set b \<inter> set (concat bs) = {}"
    using Cons.prems(1) by auto
  show ?case
  proof (cases i)
    case 0
    have "bs ! j' \<in> set bs" using Cons.prems(3) j by simp
    then have "set (bs ! j') \<subseteq> set (concat bs)" by auto
    then show ?thesis using dis 0 j by auto
  next
    case (Suc i')
    then show ?thesis using Cons.IH [OF d, of i' j'] Cons.prems j by simp
  qed
qed

lemma dry_lines_member:
  assumes "d \<in> set (concat bs)"
  shows "LogInfo (Dry_doc (doc_id d)) \<in> set (concat (map (dry_lines opts) bs))"
proof -
  obtain b where "b \<in> set bs" and "d \<in> set b" using assms by auto
  then show ?thesis by (auto simp: dry_lines_def intro!: bexI [of _ b])
qed

lemma example_distinct:
  "distinct (map fst (mainFirestore (example_world f)
                        (liveCollection (example_options g n dry))))"
  by (simp add: example_world_def example_options_def acme_doc_def)

lemma example_dry: "the_isDryRun (example_options g n (Some True))"
  by (simp add: example_options_def the_isDryRun_def)

subsection \<open>The main function\<close>

lemma main_options_simps [simp]:
  "liveCollection (main_options av) = LIVE_COLLECTION"
  "archiveCollection (main_options av) = ARCHIVE_COLLECTION"
  "organizationId (main_options av) = org av"
  "the_batchSize (main_options av) = 500"
  "the_isDryRun (main_options av) = truthy (dryRun av)"
  by (simp_all add: main_options_def the_batchSize_def the_isDryRun_def truthy_def)

lemma probe_found:
  assumes "\<not> faults w (calls w)" and "matched (main_options av) w \<noteq> []"
  shows "testFetchDocuments LIVE_COLLECTION (org av) (verifyProjects mp ap w) =
           (Inr True, probed av mp ap w)"
  using assms
  by (simp add: testFetchDocuments_def testFetch_try_def verifyProjects_def query_get_def
        logger_info_def log_samples_eq Let_def matched_def probed_def probe_lines_def)

lemma probe_empty:
  assumes "\<not> faults w (calls w)" and "matched (main_options av) w = []"
  shows "main av mp ap w =
           (Inr (),
            w\<lparr>logged := logged w @
                 [LogInfo (Main_project mp), LogInfo (Archive_project ap),
                  LogInfo (Testing_fetch (org av) LIVE_COLLECTION),
                  LogInfo No_documents_for_testing,
                  LogInfo No_documents_exiting],
              trace := trace w @ [Query LIVE_COLLECTION (org av) True],
              calls := calls w + 1\<rparr>)"
  using assms
  by (simp add: main_def testFetchDocuments_def testFetch_try_def verifyProjects_def
        query_get_def logger_info_def Let_def matched_def)

lemma probe_rejected:
  assumes "faults w (calls w)"
  shows "main av mp ap w =
           (Inr (),
            w\<lparr>logged := logged w @
                 [LogInfo (Main_project mp), LogInfo (Archive_project ap),
                  LogInfo (Testing_fetch (org av) LIVE_COLLECTION),
                  LogError Error_test_fetch (Some QueryError),
                  LogInfo No_documents_exiting],
              trace := trace w @ [Query LIVE_COLLECTION (org av) False],
              calls := calls w + 1\<rparr>)"
  using assms
  by (simp add: main_def testFetchDocuments_def testFetch_try_def verifyProjects_def
        query_get_def logger_info_def logger_error_def Let_def)

lemma main_found:
  assumes "\<not> faults w (calls w)" and "matched (main_options av) w \<noteq> []"
  shows "main av mp ap w =
           archiveContactsDocuments (main_options av)
             (if truthy (dryRun av) then logger_info Dry_run_enabled (probed av mp ap w)
              else probed av mp ap w)"
  by (simp add: main_def probe_found [OF assms])

lemma matched_probed [simp]: "matched opts (probed av mp ap w) = matched opts w"
  by (simp add: matched_def probed_def)

lemma batches_of_probed [simp]: "batches_of opts (probed av mp ap w) = batches_of opts w"
  by (simp add: batches_of_def)

lemma main_live_run:
  assumes "\<not> truthy (dryRun av)" and "\<forall>k. \<not> faults w k"
    and "matched (main_options av) w \<noteq> []"
  shows "main av mp ap w =
           (Inr (),
            w\<lparr>trace := trace w @
                 Query LIVE_COLLECTION (org av) True # Query LIVE_COLLECTION (org av) True
                 # spec_events (main_options av) (matched (main_options av) w),
              calls := calls w + 2 + 2 * length (batches_of (main_options av) w),
              archiveFirestore :=
                apply_ops (map (set_of (main_options av)) (matched (main_options av) w))
                  (archiveFirestore w),
              mainFirestore :=
                apply_ops (map (delete_of (main_options av)) (matched (main_options av) w))
                  (mainFirestore w),
              logged := logged w @ probe_lines av mp ap (matched (main_options av) w)
                        @ opening_lines (main_options av) (matched (main_options av) w)
                        @ map (summary (main_options av)) (batches_of (main_options av) w)
                        @ [LogInfo Completed]\<rparr>)"
proof -
  let ?o = "main_options av"
  let ?p = "probed av mp ap w"
  have nf: "\<not> faults w (calls w)" using assms(2) by simp
  have nd: "\<not> the_isDryRun ?o" using assms(1) by simp
  have nfp: "\<forall>k. \<not> faults ?p k" using assms(2) by (simp add: probed_def)
  have nep: "matched ?o ?p \<noteq> []" using assms(3) by simp
  have "main av mp ap w = archiveContactsDocuments ?o ?p"
    using main_found [OF nf assms(3)] assms(1) by simp
  also note archive_live_run [OF nd nfp nep, simplified]
  finally show ?thesis by (simp add: probed_def)
qed

subsection \<open>The databases after the commits\<close>

lemma apply_ops_Nil: "apply_ops [] db = db"
  by (simp add: apply_ops_def)

lemma apply_ops_Cons: "apply_ops (x # xs) db = apply_ops xs (apply_op x db)"
  by (simp add: apply_ops_def)

lemma map_of_apply_deletes:
  "map_of (apply_ops (map (delete_of opts) docs) db (liveCollection opts)) i =
     (if i \<in> doc_id ` set docs then None else map_of (db (liveCollection opts)) i)"
proof (induction docs arbitrary: db)
  case Nil
  then show ?case by (simp add: apply_ops_Nil)
next
  case (Cons d docs)
  have "apply_op (delete_of opts d) db (liveCollection opts) =
          AList.delete (doc_id d) (db (liveCollection opts))"
    by (simp add: delete_of_def)
  then show ?case
    by (simp add: apply_ops_Cons Cons.IH delete_conv)
qed

lemma map_of_apply_sets_other:
  "i \<notin> doc_id ` set docs \<Longrightarrow>
   map_of (apply_ops (map (set_of opts) docs) db c) i = map_of (db c) i"
proof (induction docs arbitrary: db)
  case Nil
  then show ?case by (simp add: apply_ops_Nil)
next
  case (Cons d docs)
  have "map_of (apply_op (set_of opts d) db c) i = map_of (db c) i"
    using Cons.prems by (simp add: set_of_def update_conv)
  then show ?case
    using Cons.prems by (simp add: apply_ops_Cons Cons.IH)
qed

lemma map_of_apply_sets:
  "distinct (map doc_id docs) \<Longrightarrow> d \<in> set docs \<Longrightarrow>
   map_of (apply_ops (map (set_of opts) docs) db (archiveCollection opts)) (doc_id d) =
     Some (doc_data d)"
proof (induction docs arbitrary: db)
  case Nil
  then show ?case by simp
next
  case (Cons x docs)
  show ?case
  proof (cases "d = x")
    case True
    have "doc_id x \<notin> doc_id ` set docs" using Cons.prems(1) by auto
    moreover have "map_of (apply_op (set_of opts x) db (archiveCollection opts)) (doc_id x) =
                     Some (doc_data x)"
      by (simp add: set_of_def update_conv)
    ultimately show ?thesis
      by (simp add: True apply_ops_Cons map_of_apply_sets_other)
  next
    case False
    then have "d \<in> set docs" using Cons.prems(2) by simp
    moreover have "distinct (map doc_id docs)" using Cons.prems(1) by simp
    ultimately show ?thesis by (simp add: apply_ops_Cons Cons.IH)
  qed
qed

subsection \<open>Options the archival function cannot tell apart\<close>

lemma same_run_stage:
  assumes "same_run a b"
  shows "stage a d sw = stage b d sw"
proof -
  have "set_of a d = set_of b d" and "delete_of a d = delete_of b d"
    and "the_isDryRun a = the_isDryRun b"
    using assms by (simp_all add: same_run_def set_of_def delete_of_def)
  then show ?thesis by (simp add: stage_def Let_def cong: if_cong)
qed

lemma same_run_flush_full: "same_run a b \<Longrightarrow> flush_full a s w = flush_full b s w"
  by (simp add: same_run_def flush_full_def)

lemma same_run_flush_last: "same_run a b \<Longrightarrow> flush_last a s w = flush_last b s w"
  by (simp add: same_run_def flush_last_def)

lemma same_run_loop: "same_run a b \<Longrightarrow> archive_loop a ds s w = archive_loop b ds s w"
proof (induction ds arbitrary: s w)
  case Nil
  then show ?case by simp
next
  case (Cons d ds)
  have bs: "the_batchSize a = the_batchSize b" using Cons.prems by (simp add: same_run_def)
  show ?case
    using Cons.IH [OF Cons.prems]
    by (simp add: same_run_stage [OF Cons.prems] same_run_flush_full [OF Cons.prems] bs
          split: prod.splits sum.splits)
qed

lemma same_run_archive:
  assumes "same_run a b"
  shows "archiveContactsDocuments a w = archiveContactsDocuments b w"
proof -
  have f: "liveCollection a = liveCollection b" "archiveCollection a = archiveCollection b"
    "organizationId a = organizationId b"
    using assms by (simp_all add: same_run_def)
  have "archive_batches a docs w1 = archive_batches b docs w1" for docs w1
    by (simp add: archive_batches_def same_run_loop [OF assms] same_run_flush_last [OF assms]
          split: prod.splits sum.splits)
  then have "archive_try a w = archive_try b w"
    unfolding archive_try_def f by (simp add: Let_def split: prod.splits sum.splits)
  then show ?thesis by (simp add: archiveContactsDocuments_def)
qed

lemma main_undefined_flag:
  assumes "dryRun av = None"
  shows "main av mp ap w = main (av\<lparr>dryRun := Some False\<rparr>) mp ap w"
proof -
  have "same_run (main_options av) (main_options (av\<lparr>dryRun := Some False\<rparr>))"
    using assms by (simp add: same_run_def truthy_def)
  then have "archiveContactsDocuments (main_options av) w1 =
             archiveContactsDocuments (main_options (av\<lparr>dryRun := Some False\<rparr>)) w1" for w1
    by (rule same_run_archive)
  then show ?thesis
    using assms by (simp add: main_def truthy_def split: prod.splits sum.splits)
qed

lemma example_main_matched:
  "matched (main_options \<lparr>org = ''acme'', dryRun = dry\<rparr>) (example_world f) =
     [\<lparr>doc_id = ''A'', doc_data = [(''organization_id'', ''acme'')]\<rparr>,
      \<lparr>doc_id = ''B'', doc_data = [(''organization_id'', ''acme'')]\<rparr>,
      \<lparr>doc_id = ''C'', doc_data = [(''organization_id'', ''acme'')]\<rparr>,
      \<lparr>doc_id = ''D'', doc_data = [(''organization_id'', ''acme'')]\<rparr>,
      \<lparr>doc_id = ''E'', doc_data = [(''organization_id'', ''acme'')]\<rparr>]"
  by (simp add: matched_def matching_def main_options_def LIVE_COLLECTION_def
        example_world_def acme_doc_def)

subsection \<open>Errors in the log\<close>

lemma failed_member:
  assumes "ends_with r tr" and "ev \<in> set tr" and "error_of ev \<noteq> None"
  shows "r = Inl (the (error_of ev))"
proof -
  obtain pre post where "tr = pre @ ev # post"
    using assms(2) by (auto dest: split_list)
  with assms(1) have "ends_with r (pre @ ev # post)" by simp
  from failed_is_last [OF this assms(3)] show ?thesis by simp
qed

lemma new_entries_mono:
  assumes "prefix (logged w) (logged w1)" and "prefix (logged w1) (logged w2)"
  shows "set (new_entries w1 w2) \<subseteq> set (new_entries w w2)"
proof -
  obtain xs where xs: "logged w1 = logged w @ xs" using assms(1) by (auto simp: prefix_def)
  obtain ys where ys: "logged w2 = logged w1 @ ys" using assms(2) by (auto simp: prefix_def)
  show ?thesis by (simp add: new_entries_def xs ys)
qed

lemma new_entries_last:
  assumes "prefix (logged w) (logged w1)"
  shows "x \<in> set (new_entries w (w1\<lparr>logged := logged w1 @ [x]\<rparr>))"
proof -
  obtain xs where xs: "logged w1 = logged w @ xs" using assms by (auto simp: prefix_def)
  show ?thesis by (simp add: new_entries_def xs)
qed

lemma archive_errors_logged:
  assumes "ev \<in> set (new_events w (snd (archiveContactsDocuments opts w)))"
    and "error_of ev \<noteq> None"
  shows "LogError Error_archival (error_of ev)
           \<in> set (new_entries w (snd (archiveContactsDocuments opts w)))"
proof -
  let ?t = "archive_try opts w"
  obtain tr where t: "tracks w tr (snd ?t)" and e: "ends_with (fst ?t) tr"
    using archive_try_tracks [of w opts] by blast
  have "tracks w tr (snd (archiveContactsDocuments opts w))"
    using t by (auto simp: archive_catch tracks_def logger_error_def split: sum.splits)
  then have "new_events w (snd (archiveContactsDocuments opts w)) = tr"
    by (rule tracks_new_events)
  then have "ev \<in> set tr" using assms(1) by simp
  from failed_member [OF e this assms(2)]
  have r: "fst ?t = Inl (the (error_of ev))" .
  have p: "prefix (logged w) (logged (snd ?t))" using t by (simp add: tracks_def)
  have "snd (archiveContactsDocuments opts w) =
          (snd ?t)\<lparr>logged := logged (snd ?t) @ [LogError Error_archival (error_of ev)]\<rparr>"
    using r assms(2) by (auto simp: archive_catch logger_error_def)
  then show ?thesis using new_entries_last [OF p] by simp
qed

lemma archive_log_grows:
  "prefix (logged w) (logged (snd (archiveContactsDocuments opts w)))"
  using archive_tracks [of w opts] by (auto simp: tracks_def)

lemma main_returns: "fst (main av mp ap w) = Inr ()"
  by (simp add: main_def testFetchDocuments_def archive_catch split: prod.splits sum.splits)

lemma main_errors_logged:
  assumes "ev \<in> set (new_events w (snd (main av mp ap w)))" and "error_of ev \<noteq> None"
  shows "\<exists>m. LogError m (error_of ev) \<in> set (new_entries w (snd (main av mp ap w)))"
proof -
  let ?o = "main_options av"
  consider (rejected) "faults w (calls w)"
    | (none) "\<not> faults w (calls w)" "matched ?o w = []"
    | (found) "\<not> faults w (calls w)" "matched ?o w \<noteq> []"
    by blast
  then show ?thesis
  proof cases
    case rejected
    have "ev = Query LIVE_COLLECTION (org av) False"
      using assms(1) by (simp add: probe_rejected [OF rejected] new_events_def)
    moreover have "LogError Error_test_fetch (Some QueryError)
                     \<in> set (new_entries w (snd (main av mp ap w)))"
      by (simp add: probe_rejected [OF rejected] new_entries_def)
    ultimately show ?thesis by auto
  next
    case none
    have "ev = Query LIVE_COLLECTION (org av) True"
      using assms(1) by (simp add: probe_empty [OF none] new_events_def)
    then show ?thesis using assms(2) by simp
  next
    case found
    define wq where
      "wq = (if truthy (dryRun av) then logger_info Dry_run_enabled (probed av mp ap w)
             else probed av mp ap w)"
    let ?w' = "snd (archiveContactsDocuments ?o wq)"
    have m: "main av mp ap w = archiveContactsDocuments ?o wq"
      unfolding wq_def by (rule main_found [OF found])
    have tq: "trace wq = trace w @ [Query LIVE_COLLECTION (org av) True]"
      and lq: "prefix (logged w) (logged wq)"
      by (simp_all add: wq_def probed_def logger_info_def)
    obtain tr where t: "tracks wq tr ?w'"
      using archive_tracks [of wq ?o] by blast
    have evs: "new_events wq ?w' = tr" using t by (rule tracks_new_events)
    have "new_events w ?w' = Query LIVE_COLLECTION (org av) True # tr"
      using t tq by (simp add: tracks_def new_events_def)
    then have "ev \<in> set (new_events wq ?w')"
      using assms m evs by auto
    then have "LogError Error_archival (error_of ev) \<in> set (new_entries wq ?w')"
      using assms(2) by (rule archive_errors_logged)
    moreover have "set (new_entries wq ?w') \<subseteq> set (new_entries w ?w')"
      using lq archive_log_grows by (rule new_entries_mono)
    ultimately show ?thesis using m by auto
  qed
qed

section \<open>The claims\<close>

subsection \<open>A rejected archive commit\<close>

text \<open>
  C1, as stated, fails: with the archive commit of the first batch rejected, the run ends
  with that commit; no delete commit is attempted and the live collection is untouched.
\<close>

theorem failed_archive_commit_counterexample:
  "new_events (example_world (rejecting 1))
     (snd (archiveContactsDocuments (example_options ''acme'' 2 (Some False))
             (example_world (rejecting 1)))) =
   [Query ''Organizations'' ''acme'' True,
    Stage ArchiveFirestore
      (Set_op ''archive_Organizations'' ''A'' [(''organization_id'', ''acme'')]),
    Stage MainFirestore (Delete_op ''Organizations'' ''A''),
    Stage ArchiveFirestore
      (Set_op ''archive_Organizations'' ''B'' [(''organization_id'', ''acme'')]),
    Stage MainFirestore (Delete_op ''Organizations'' ''B''),
    Commit ArchiveFirestore
      [Set_op ''archive_Organizations'' ''A'' [(''organization_id'', ''acme'')],
       Set_op ''archive_Organizations'' ''B'' [(''organization_id'', ''acme'')]] False]
   \<and> \<not> the_isDryRun (example_options ''acme'' 2 (Some False))
   \<and> mainFirestore
       (snd (archiveContactsDocuments (example_options ''acme'' 2 (Some False))
               (example_world (rejecting 1)))) =
     mainFirestore (example_world (rejecting 1))"
  by (simp add: run_defs)

text \<open>
  C1, amended. A rejected archive commit is the last event of the run: the delete
  commit of that batch is not attempted, and both databases are as the commits accepted
  before it left them.
\<close>

theorem failed_archive_commit_skips_delete:
  assumes "new_events w (snd (archiveContactsDocuments opts w)) =
             pre @ Commit ArchiveFirestore ops False # post"
  shows "post = []
         \<and> mainFirestore (snd (archiveContactsDocuments opts w)) =
             apply_ops (concat (committed MainFirestore pre)) (mainFirestore w)
         \<and> archiveFirestore (snd (archiveContactsDocuments opts w)) =
             apply_ops (concat (committed ArchiveFirestore pre)) (archiveFirestore w)"
proof -
  let ?w' = "snd (archiveContactsDocuments opts w)"
  let ?ev = "Commit ArchiveFirestore ops False"
  obtain tr where t: "tracks w tr ?w'" and e: "ends_with (fst (archive_try opts w)) tr"
    using archive_tracks [of w opts] by blast
  have tr: "tr = pre @ ?ev # post" using tracks_new_events [OF t] assms by simp
  have "error_of ?ev \<noteq> None" by simp
  with e have p: "post = []" unfolding tr by (rule failed_is_last [THEN conjunct1])
  have "committed MainFirestore tr = committed MainFirestore pre"
    and "committed ArchiveFirestore tr = committed ArchiveFirestore pre"
    by (simp_all add: tr p committed_append)
  then show ?thesis using t p by (simp add: tracks_def)
qed

theorem failed_archive_commit_skips_delete_witness:
  "new_events (example_world (rejecting 3))
     (snd (archiveContactsDocuments (example_options ''acme'' 2 (Some False))
             (example_world (rejecting 3)))) =
   [Query ''Organizations'' ''acme'' True,
    Stage ArchiveFirestore
      (Set_op ''archive_Organizations'' ''A'' [(''organization_id'', ''acme'')]),
    Stage MainFirestore (Delete_op ''Organizations'' ''A''),
    Stage ArchiveFirestore
      (Set_op ''archive_Organizations'' ''B'' [(''organization_id'', ''acme'')]),
    Stage MainFirestore (Delete_op ''Organizations'' ''B''),
    Commit ArchiveFirestore
      [Set_op ''archive_Organizations'' ''A'' [(''organization_id'', ''acme'')],
       Set_op ''archive_Organizations'' ''B'' [(''organization_id'', ''acme'')]] True,
    Commit MainFirestore
      [Delete_op ''Organizations'' ''A'', Delete_op ''Organizations'' ''B''] True,
    Stage ArchiveFirestore
      (Set_op ''archive_Organizations'' ''C'' [(''organization_id'', ''acme'')]),
    Stage MainFirestore (Delete_op ''Organizations'' ''C''),
    Stage ArchiveFirestore
      (Set_op ''archive_Organizations'' ''D'' [(''organization_id'', ''acme'')]),
    Stage MainFirestore (Delete_op ''Organizations'' ''D'')]
   @ Commit ArchiveFirestore
       [Set_op ''archive_Organizations'' ''C'' [(''organization_id'', ''acme'')],
        Set_op ''archive_Organizations'' ''D'' [(''organization_id'', ''acme'')]] False
   # []
   \<and> mainFirestore
       (snd (archiveContactsDocuments (example_options ''acme'' 2 (Some False))
               (example_world (rejecting 3)))) ''Organizations'' =
     [(''X'', [(''organization_id'', ''other'')]), acme_doc ''C'', acme_doc ''D'',
      acme_doc ''E'']"
proof -
  let ?w = "example_world (rejecting 3)"
  let ?o = "example_options ''acme'' 2 (Some False)"
  let ?pre = "[Query ''Organizations'' ''acme'' True,
    Stage ArchiveFirestore
      (Set_op ''archive_Organizations'' ''A'' [(''organization_id'', ''acme'')]),
    Stage MainFirestore (Delete_op ''Organizations'' ''A''),
    Stage ArchiveFirestore
      (Set_op ''archive_Organizations'' ''B'' [(''organization_id'', ''acme'')]),
    Stage MainFirestore (Delete_op ''Organizations'' ''B''),
    Commit ArchiveFirestore
      [Set_op ''archive_Organizations'' ''A'' [(''organization_id'', ''acme'')],
       Set_op ''archive_Organizations'' ''B'' [(''organization_id'', ''acme'')]] True,
    Commit MainFirestore
      [Delete_op ''Organizations'' ''A'', Delete_op ''Organizations'' ''B''] True,
    Stage ArchiveFirestore
      (Set_op ''archive_Organizations'' ''C'' [(''organization_id'', ''acme'')]),
    Stage MainFirestore (Delete_op ''Organizations'' ''C''),
    Stage ArchiveFirestore
      (Set_op ''archive_Organizations'' ''D'' [(''organization_id'', ''acme'')]),
    Stage MainFirestore (Delete_op ''Organizations'' ''D'')]"
  let ?ops = "[Set_op ''archive_Organizations'' ''C'' [(''organization_id'', ''acme'')],
        Set_op ''archive_Organizations'' ''D'' [(''organization_id'', ''acme'')]]"
  have run: "new_events ?w (snd (archiveContactsDocuments ?o ?w)) =
               ?pre @ Commit ArchiveFirestore ?ops False # []"
    by (simp add: run_defs)
  have "mainFirestore (snd (archiveContactsDocuments ?o ?w)) =
          apply_ops (concat (committed MainFirestore ?pre)) (mainFirestore ?w)"
    using failed_archive_commit_skips_delete [OF run] by simp
  then have "mainFirestore (snd (archiveContactsDocuments ?o ?w)) ''Organizations'' =
     [(''X'', [(''organization_id'', ''other'')]), acme_doc ''C'', acme_doc ''D'',
      acme_doc ''E'']"
    by (simp add: apply_ops_def example_world_def acme_doc_def)
  with run show ?thesis by simp
qed

subsection \<open>Number and size of the batches\<close>

text \<open>
  C2. With batch size \<open>B \<ge> 1\<close>, \<open>N \<ge> 1\<close> matched records and no backend call rejected, the
  run reports \<open>\<lceil>N / B\<rceil>\<close> batches (committed, or simulated in a dry run); the last one
  has \<open>N mod B\<close> records, or \<open>B\<close> when \<open>B\<close> divides \<open>N\<close>. In a run that is not a dry run
  the write batches each sink accepted have exactly the reported sizes.
\<close>

theorem batch_count:
  assumes "1 \<le> the_batchSize opts" and "\<forall>k. \<not> faults w k" and "matched opts w \<noteq> []"
  shows "int (length (reported (new_entries w (snd (archiveContactsDocuments opts w))))) =
           \<lceil>real (length (matched opts w)) / real_of_int (the_batchSize opts)\<rceil>
         \<and> int (last (reported (new_entries w (snd (archiveContactsDocuments opts w))))) =
             (if int (length (matched opts w)) mod the_batchSize opts = 0
              then the_batchSize opts
              else int (length (matched opts w)) mod the_batchSize opts)
         \<and> (\<not> the_isDryRun opts \<longrightarrow>
              map length
                (committed ArchiveFirestore
                   (new_events w (snd (archiveContactsDocuments opts w)))) =
                reported (new_entries w (snd (archiveContactsDocuments opts w)))
              \<and> map length
                  (committed MainFirestore
                     (new_events w (snd (archiveContactsDocuments opts w)))) =
                  reported (new_entries w (snd (archiveContactsDocuments opts w))))"
proof -
  let ?B = "the_batchSize opts"
  let ?n = "nat ?B"
  let ?docs = "matched opts w"
  let ?bs = "batches_of opts w"
  let ?w' = "snd (archiveContactsDocuments opts w)"
  have n: "0 < ?n" and nB: "int ?n = ?B" using assms(1) by simp_all
  have sizes: "reported (new_entries w ?w') = map length ?bs"
    using assms(2,3) by (rule reported_run)
  have bs_ne: "?bs \<noteq> []"
    using assms(3) n by (simp add: batches_of_def spec_batches.simps [of ?n ?docs])
  have c: "int ((length ?docs + ?n - 1) div ?n) = \<lceil>real (length ?docs) / real ?n\<rceil>"
    by (rule ceiling_batches [OF n])
  have l: "length ?bs = (length ?docs + ?n - 1) div ?n"
    unfolding batches_of_def by (rule length_spec_batches [OF n])
  have "int (length ?bs) = \<lceil>real (length ?docs) / real ?n\<rceil>"
    unfolding l by (rule c)
  moreover have "real ?n = real_of_int ?B" using assms(1) by simp
  ultimately have count: "int (length ?bs) = \<lceil>real (length ?docs) / real_of_int ?B\<rceil>"
    by simp
  define m where "m = length ?docs mod ?n"
  have "int m = int (length ?docs) mod int ?n"
    unfolding m_def by (rule zmod_int)
  then have im: "int m = int (length ?docs) mod ?B" by (simp only: nB)
  have "last (map length ?bs) = length (last ?bs)"
    using bs_ne by (simp add: last_map)
  also have "\<dots> = (if m = 0 then ?n else m)"
    unfolding m_def batches_of_def using n assms(3) by (rule last_spec_batches)
  finally have "int (last (map length ?bs)) = (if int m = 0 then int ?n else int m)"
    by simp
  then have lst: "int (last (map length ?bs)) =
                  (if int (length ?docs) mod ?B = 0 then ?B else int (length ?docs) mod ?B)"
    by (simp only: nB im)
  have live: "map length (committed ArchiveFirestore (new_events w ?w')) = map length ?bs
              \<and> map length (committed MainFirestore (new_events w ?w')) = map length ?bs"
    if "\<not> the_isDryRun opts"
    using new_events_live [OF that assms(2)]
    by (simp add: spec_events_def committed_batches batches_of_def comp_def)
  show ?thesis
    using count lst live by (simp only: sizes length_map) blast
qed

theorem batch_count_witness:
  "1 \<le> the_batchSize (example_options ''acme'' 2 None)
   \<and> (\<forall>k. \<not> faults (example_world accepting) k)
   \<and> length (matched (example_options ''acme'' 2 None) (example_world accepting)) = 5
   \<and> int (length (reported (new_entries (example_world accepting)
        (snd (archiveContactsDocuments (example_options ''acme'' 2 None)
                (example_world accepting)))))) = 3
   \<and> int (last (reported (new_entries (example_world accepting)
        (snd (archiveContactsDocuments (example_options ''acme'' 2 None)
                (example_world accepting)))))) = 1"
proof -
  let ?w = "example_world accepting"
  let ?o = "example_options ''acme'' 2 None"
  have b: "the_batchSize ?o = 2" by (simp add: the_batchSize_def example_options_def)
  then have b1: "1 \<le> the_batchSize ?o" by simp
  have nf: "\<forall>k. \<not> faults ?w k" by (rule example_accepting)
  have len: "length (matched ?o ?w) = 5" by (simp add: example_matched)
  then have ne: "matched ?o ?w \<noteq> []" by auto
  have c: "\<lceil>real 5 / real_of_int 2\<rceil> = 3" by simp
  show ?thesis
    using batch_count [OF b1 nf ne] b1 nf len c by (simp add: b)
qed

subsection \<open>The batches partition the matched records\<close>

text \<open>
  C3. With batch size at least 1 and no backend call rejected, the batches of a run are a
  partition of the matched records in query order: their concatenation is the matched
  sequence, every batch holds between 1 and \<open>batchSize\<close> records, and when the
  identifiers of the collection are unique no identifier is in two batches. These are
  the batches the run commits: in a run that is not a dry run the write batches accepted
  by the archive sink are the sets of these batches and those accepted by the source sink
  are their deletes; in a dry run the log lists, batch by batch, the identifiers of
  these batches, each batch followed by its summary line.
\<close>

theorem batches_partition_matched:
  assumes "1 \<le> the_batchSize opts" and "\<forall>k. \<not> faults w k" and "matched opts w \<noteq> []"
  shows "concat (batches_of opts w) = matched opts w
     \<and> (\<forall>b\<in>set (batches_of opts w). 1 \<le> length b \<and> int (length b) \<le> the_batchSize opts)
     \<and> (distinct (map fst (mainFirestore w (liveCollection opts))) \<longrightarrow>
          (\<forall>i j. i < j \<and> j < length (batches_of opts w) \<longrightarrow>
             doc_id ` set (batches_of opts w ! i) \<inter> doc_id ` set (batches_of opts w ! j) = {}))
     \<and> (\<not> the_isDryRun opts \<longrightarrow>
          committed ArchiveFirestore (new_events w (snd (archiveContactsDocuments opts w))) =
            map (map (set_of opts)) (batches_of opts w)
          \<and> committed MainFirestore (new_events w (snd (archiveContactsDocuments opts w))) =
              map (map (delete_of opts)) (batches_of opts w))
     \<and> (the_isDryRun opts \<longrightarrow>
          new_entries w (snd (archiveContactsDocuments opts w)) =
            opening_lines opts (matched opts w)
            @ concat (map (dry_lines opts) (batches_of opts w)) @ [LogInfo Completed])"
proof -
  let ?n = "nat (the_batchSize opts)"
  let ?bs = "batches_of opts w"
  let ?w' = "snd (archiveContactsDocuments opts w)"
  have n: "0 < ?n" using assms(1) by simp
  have cat: "concat ?bs = matched opts w"
    by (simp add: batches_of_def concat_spec_batches)
  have bounds: "\<forall>b\<in>set ?bs. 1 \<le> length b \<and> int (length b) \<le> the_batchSize opts"
  proof
    fix b assume b: "b \<in> set ?bs"
    then have "b \<noteq> []" using spec_batches_nonempty [of ?n "matched opts w"]
      by (simp add: batches_of_def)
    then have "1 \<le> length b" by (cases b) simp_all
    moreover have "length b \<le> ?n"
      using b spec_batches_bounded [OF n, of "matched opts w"] by (simp add: batches_of_def)
    ultimately show "1 \<le> length b \<and> int (length b) \<le> the_batchSize opts" by linarith
  qed
  have disj: "doc_id ` set (?bs ! i) \<inter> doc_id ` set (?bs ! j) = {}"
    if dc: "distinct (map fst (mainFirestore w (liveCollection opts)))"
      and ij: "i < j \<and> j < length ?bs" for i j
  proof -
    have "distinct (map doc_id (matched opts w))"
      unfolding matched_def using dc by (rule distinct_matching)
    then have "distinct (concat (map (map doc_id) ?bs))"
      by (simp add: map_concat [symmetric] cat)
    then have "set (map (map doc_id) ?bs ! i) \<inter> set (map (map doc_id) ?bs ! j) = {}"
      using ij by (intro disjoint_batches) simp_all
    then show ?thesis using ij by simp
  qed
  have live: "committed ArchiveFirestore (new_events w ?w') = map (map (set_of opts)) ?bs
              \<and> committed MainFirestore (new_events w ?w') = map (map (delete_of opts)) ?bs"
    if "\<not> the_isDryRun opts"
    using new_events_live [OF that assms(2)]
    by (simp add: spec_events_def committed_batches batches_of_def)
  have dry: "new_entries w ?w' =
               opening_lines opts (matched opts w)
               @ concat (map (dry_lines opts) ?bs) @ [LogInfo Completed]"
    if "the_isDryRun opts"
    using that assms(2,3) by (intro new_entries_dry) simp_all
  show ?thesis
    using cat bounds disj live dry by blast
qed

theorem batches_partition_matched_witness:
  "1 \<le> the_batchSize (example_options ''acme'' 2 (Some False))
   \<and> (\<forall>k. \<not> faults (example_world accepting) k)
   \<and> matched (example_options ''acme'' 2 (Some False)) (example_world accepting) \<noteq> []
   \<and> distinct (map fst (mainFirestore (example_world accepting)
                          (liveCollection (example_options ''acme'' 2 (Some False)))))
   \<and> \<not> the_isDryRun (example_options ''acme'' 2 (Some False))
   \<and> the_isDryRun (example_options ''acme'' 2 (Some True))
   \<and> committed MainFirestore
        (new_events (example_world accepting)
           (snd (archiveContactsDocuments (example_options ''acme'' 2 (Some False))
                   (example_world accepting)))) =
       [ [Delete_op ''Organizations'' ''A'', Delete_op ''Organizations'' ''B''],
        [Delete_op ''Organizations'' ''C'', Delete_op ''Organizations'' ''D''],
        [Delete_op ''Organizations'' ''E'']]
   \<and> doc_id ` set (batches_of (example_options ''acme'' 2 (Some False))
                      (example_world accepting) ! 0)
       \<inter> doc_id ` set (batches_of (example_options ''acme'' 2 (Some False))
                          (example_world accepting) ! 1) = {}
   \<and> reported
        (new_entries (example_world accepting)
           (snd (archiveContactsDocuments (example_options ''acme'' 2 (Some True))
                   (example_world accepting)))) = [2, 2, 1]"
proof -
  let ?w = "example_world accepting"
  let ?l = "example_options ''acme'' 2 (Some False)"
  let ?d = "example_options ''acme'' 2 (Some True)"
  have b: "1 \<le> the_batchSize ?l" "1 \<le> the_batchSize ?d"
    by (simp_all add: the_batchSize_def example_options_def)
  have nf: "\<forall>k. \<not> faults ?w k" by (rule example_accepting)
  have ne: "matched ?l ?w \<noteq> []" "matched ?d ?w \<noteq> []" by (simp_all add: example_matched)
  have dc: "distinct (map fst (mainFirestore ?w (liveCollection ?l)))"
    by (rule example_distinct)
  have nd: "\<not> the_isDryRun ?l" by (rule example_not_dry)
  have dr: "the_isDryRun ?d" by (rule example_dry)
  note live = batches_partition_matched [OF b(1) nf ne(1)]
  note dry = batches_partition_matched [OF b(2) nf ne(2)]
  have "committed MainFirestore (new_events ?w (snd (archiveContactsDocuments ?l ?w))) =
          map (map (delete_of ?l)) (batches_of ?l ?w)"
    using live nd by blast
  then have c: "committed MainFirestore
                  (new_events ?w (snd (archiveContactsDocuments ?l ?w))) =
       [ [Delete_op ''Organizations'' ''A'', Delete_op ''Organizations'' ''B''],
        [Delete_op ''Organizations'' ''C'', Delete_op ''Organizations'' ''D''],
        [Delete_op ''Organizations'' ''E'']]"
    unfolding example_batches by (simp add: delete_of_def example_options_def)
  have "length (batches_of ?l ?w) = 3" unfolding example_batches by simp
  then have "(0::nat) < 1 \<and> 1 < length (batches_of ?l ?w)" by simp
  then have dj: "doc_id ` set (batches_of ?l ?w ! 0) \<inter> doc_id ` set (batches_of ?l ?w ! 1) = {}"
    using live dc by blast
  have "new_entries ?w (snd (archiveContactsDocuments ?d ?w)) =
          opening_lines ?d (matched ?d ?w)
          @ concat (map (dry_lines ?d) (batches_of ?d ?w)) @ [LogInfo Completed]"
    using dry dr by blast
  then have r: "reported (new_entries ?w (snd (archiveContactsDocuments ?d ?w))) = [2, 2, 1]"
    by (simp add: reported_append reported_opening_lines reported_dry_lines example_batches)
  show ?thesis
    using b(1) nf ne(1) dc nd dr c dj r by blast
qed

subsection \<open>Dry run\<close>

text \<open>
  C4. When \<open>isDryRun\<close> is true, whatever the input and whatever the backend rejects,
  the run leaves both databases as they were and neither stages nor commits any
  operation on either sink; and when its query is answered, the log holds the line
  "Dry Run: Would archive and delete Document ID: <id>" for the identifier of every
  matched record.
\<close>

theorem dry_run_writes_nothing:
  assumes "the_isDryRun opts"
  shows "mainFirestore (snd (archiveContactsDocuments opts w)) = mainFirestore w
     \<and> archiveFirestore (snd (archiveContactsDocuments opts w)) = archiveFirestore w
     \<and> (\<forall>e\<in>set (new_events w (snd (archiveContactsDocuments opts w))). \<not> is_write e)
     \<and> (\<not> faults w (calls w) \<longrightarrow>
          (\<forall>d\<in>set (matched opts w).
             LogInfo (Dry_doc (doc_id d))
               \<in> set (new_entries w (snd (archiveContactsDocuments opts w)))
             \<and> entry_text (LogInfo (Dry_doc (doc_id d))) =
                 ''Dry Run: Would archive and delete Document ID: '' @ doc_id d))"
proof -
  let ?w' = "snd (archiveContactsDocuments opts w)"
  consider (rejected) "faults w (calls w)"
    | (none) "\<not> faults w (calls w)" "matched opts w = []"
    | (some) "\<not> faults w (calls w)" "matched opts w \<noteq> []"
    by blast
  then show ?thesis
  proof cases
    case rejected
    then show ?thesis
      by (simp add: archive_query_rejected new_events_def)
  next
    case none
    then show ?thesis
      by (simp add: archive_no_match new_events_def)
  next
    case some
    have frame: "mainFirestore ?w' = mainFirestore w" "archiveFirestore ?w' = archiveFirestore w"
      "new_events w ?w' = [Query (liveCollection opts) (organizationId opts) True]"
      by (simp_all add: archive_dry_run [OF assms some] new_events_def)
    have "LogInfo (Dry_doc (doc_id d)) \<in> set (new_entries w ?w')"
      if "d \<in> set (matched opts w)" for d
    proof -
      have "d \<in> set (concat (batches_of opts w))"
        using that by (simp add: batches_of_def concat_spec_batches)
      then have "LogInfo (Dry_doc (doc_id d))
                   \<in> set (concat (map (dry_lines opts) (batches_of opts w)))"
        by (rule dry_lines_member)
      then show ?thesis
        unfolding new_entries_dry [OF assms some] by simp
    qed
    then show ?thesis using frame by simp
  qed
qed

theorem dry_run_writes_nothing_witness:
  "the_isDryRun (example_options ''acme'' 2 (Some True))
   \<and> \<not> faults (example_world accepting) (calls (example_world accepting))
   \<and> \<lparr>doc_id = ''A'', doc_data = [(''organization_id'', ''acme'')]\<rparr>
       \<in> set (matched (example_options ''acme'' 2 (Some True)) (example_world accepting))
   \<and> Query ''Organizations'' ''acme'' True
       \<in> set (new_events (example_world accepting)
                (snd (archiveContactsDocuments (example_options ''acme'' 2 (Some True))
                        (example_world accepting))))
   \<and> \<not> is_write (Query ''Organizations'' ''acme'' True)
   \<and> ''Dry Run: Would archive and delete Document ID: A''
       \<in> entry_text ` set (new_entries (example_world accepting)
                (snd (archiveContactsDocuments (example_options ''acme'' 2 (Some True))
                        (example_world accepting))))
   \<and> mainFirestore (snd (archiveContactsDocuments (example_options ''acme'' 2 (Some True))
                           (example_world accepting))) =
       mainFirestore (example_world accepting)
   \<and> archiveFirestore (snd (archiveContactsDocuments (example_options ''acme'' 2 (Some True))
                              (example_world accepting))) =
       archiveFirestore (example_world accepting)"
proof -
  let ?w = "example_world accepting"
  let ?o = "example_options ''acme'' 2 (Some True)"
  let ?A = "\<lparr>doc_id = ''A'', doc_data = [(''organization_id'', ''acme'')]\<rparr>"
  have dr: "the_isDryRun ?o" by (rule example_dry)
  have nf: "\<not> faults ?w (calls ?w)" using example_accepting by simp
  have A: "?A \<in> set (matched ?o ?w)" by (simp add: example_matched)
  have q: "Query ''Organizations'' ''acme'' True
             \<in> set (new_events ?w (snd (archiveContactsDocuments ?o ?w)))"
    by (simp add: run_defs)
  note inst = dry_run_writes_nothing [OF dr, of ?w]
  have "LogInfo (Dry_doc (doc_id ?A)) \<in> set (new_entries ?w (snd (archiveContactsDocuments ?o ?w)))"
    using inst nf A by blast
  then have "entry_text (LogInfo (Dry_doc (doc_id ?A)))
         \<in> entry_text ` set (new_entries ?w (snd (archiveContactsDocuments ?o ?w)))"
    by (rule imageI)
  then have line: "''Dry Run: Would archive and delete Document ID: A''
         \<in> entry_text ` set (new_entries ?w (snd (archiveContactsDocuments ?o ?w)))"
    by simp
  show ?thesis
    using dr nf A q line inst by simp
qed

subsection \<open>Errors of the backend\<close>

text \<open>
  C5. Whatever the backend rejects, \<open>archiveContactsDocuments\<close> returns normally. A call
  that raised an error (a rejected query or a rejected commit) is the last event
  of the run, so nothing is staged or committed after it, and the last log entry is the
  error entry of the top-level \<open>catch\<close>, carrying that error.
\<close>

theorem errors_end_the_run:
  "fst (archiveContactsDocuments opts w) = Inr ()
   \<and> (\<forall>pre ev post.
        new_events w (snd (archiveContactsDocuments opts w)) = pre @ ev # post
        \<and> error_of ev \<noteq> None
        \<longrightarrow> post = []
            \<and> last (logged (snd (archiveContactsDocuments opts w))) =
                LogError Error_archival (error_of ev))"
proof -
  let ?w' = "snd (archiveContactsDocuments opts w)"
  obtain tr where t: "tracks w tr ?w'" and e: "ends_with (fst (archive_try opts w)) tr"
    using archive_tracks [of w opts] by blast
  have tr: "new_events w ?w' = tr" using t by (rule tracks_new_events)
  have "post = [] \<and> last (logged ?w') = LogError Error_archival (error_of ev)"
    if "new_events w ?w' = pre @ ev # post" and "error_of ev \<noteq> None" for pre ev post
  proof -
    have "ends_with (fst (archive_try opts w)) (pre @ ev # post)"
      using e tr that(1) by simp
    from failed_is_last [OF this that(2)]
    have p: "post = []" and r: "fst (archive_try opts w) = Inl (the (error_of ev))"
      by simp_all
    show ?thesis
      using p archive_logs_error [OF r] that(2) by auto
  qed
  moreover have "fst (archiveContactsDocuments opts w) = Inr ()"
    by (simp add: archive_catch)
  ultimately show ?thesis by blast
qed

theorem errors_end_the_run_witness:
  "new_events (example_world (rejecting 2))
     (snd (archiveContactsDocuments (example_options ''acme'' 2 None)
             (example_world (rejecting 2)))) =
   [Query ''Organizations'' ''acme'' True,
    Stage ArchiveFirestore
      (Set_op ''archive_Organizations'' ''A'' [(''organization_id'', ''acme'')]),
    Stage MainFirestore (Delete_op ''Organizations'' ''A''),
    Stage ArchiveFirestore
      (Set_op ''archive_Organizations'' ''B'' [(''organization_id'', ''acme'')]),
    Stage MainFirestore (Delete_op ''Organizations'' ''B''),
    Commit ArchiveFirestore
      [Set_op ''archive_Organizations'' ''A'' [(''organization_id'', ''acme'')],
       Set_op ''archive_Organizations'' ''B'' [(''organization_id'', ''acme'')]] True]
   @ Commit MainFirestore
       [Delete_op ''Organizations'' ''A'', Delete_op ''Organizations'' ''B''] False
   # []
   \<and> error_of (Commit MainFirestore
         [Delete_op ''Organizations'' ''A'', Delete_op ''Organizations'' ''B''] False) \<noteq> None
   \<and> last (logged (snd (archiveContactsDocuments (example_options ''acme'' 2 None)
                          (example_world (rejecting 2))))) =
       LogError Error_archival (Some (CommitError MainFirestore))"
proof -
  let ?w = "example_world (rejecting 2)"
  let ?o = "example_options ''acme'' 2 None"
  let ?pre = "[Query ''Organizations'' ''acme'' True,
    Stage ArchiveFirestore
      (Set_op ''archive_Organizations'' ''A'' [(''organization_id'', ''acme'')]),
    Stage MainFirestore (Delete_op ''Organizations'' ''A''),
    Stage ArchiveFirestore
      (Set_op ''archive_Organizations'' ''B'' [(''organization_id'', ''acme'')]),
    Stage MainFirestore (Delete_op ''Organizations'' ''B''),
    Commit ArchiveFirestore
      [Set_op ''archive_Organizations'' ''A'' [(''organization_id'', ''acme'')],
       Set_op ''archive_Organizations'' ''B'' [(''organization_id'', ''acme'')]] True]"
  let ?ev = "Commit MainFirestore
       [Delete_op ''Organizations'' ''A'', Delete_op ''Organizations'' ''B''] False"
  have run: "new_events ?w (snd (archiveContactsDocuments ?o ?w)) = ?pre @ ?ev # []"
    by (simp add: run_defs)
  have err: "error_of ?ev \<noteq> None" by simp
  from errors_end_the_run [of ?o ?w, THEN conjunct2, rule_format, of ?pre ?ev "[]"]
  have "last (logged (snd (archiveContactsDocuments ?o ?w))) =
          LogError Error_archival (error_of ?ev)"
    using run err by blast
  then show ?thesis using run by simp
qed

subsection \<open>Order of the commits\<close>

text \<open>
  C6. In a run that is not a dry run, the events after the query follow the
  sequence \<open>spec_events\<close>: batch after batch, every record of the batch staged on both
  sinks, then the archive commit, then the delete commit, and only then the staging of the
  next batch. Whatever the backend rejects, the events of the run are a prefix of that
  sequence (the last call possibly rejected); when it rejects nothing they are all of it.
\<close>

theorem commits_in_order:
  assumes "\<not> the_isDryRun opts"
  shows "prefix (map accepted (new_events w (snd (archiveContactsDocuments opts w))))
           (Query (liveCollection opts) (organizationId opts) True
            # spec_events opts (matched opts w))
         \<and> ((\<forall>k. \<not> faults w k) \<longrightarrow>
              new_events w (snd (archiveContactsDocuments opts w)) =
                Query (liveCollection opts) (organizationId opts) True
                # spec_events opts (matched opts w))"
proof -
  obtain tr where t: "tracks w tr (snd (archiveContactsDocuments opts w))"
    and p: "prefix (map accepted tr)
              (Query (liveCollection opts) (organizationId opts) True
               # spec_events opts (matched opts w))"
    using archive_tracks [of w opts] by blast
  have "new_events w (snd (archiveContactsDocuments opts w)) = tr"
    using t by (rule tracks_new_events)
  then show ?thesis
    using p new_events_live [OF assms, of w] by blast
qed

theorem commits_in_order_witness:
  "\<not> the_isDryRun (example_options ''acme'' 2 (Some False))
   \<and> (\<forall>k. \<not> faults (example_world accepting) k)
   \<and> new_events (example_world accepting)
       (snd (archiveContactsDocuments (example_options ''acme'' 2 (Some False))
               (example_world accepting))) =
     [Query ''Organizations'' ''acme'' True,
      Stage ArchiveFirestore
        (Set_op ''archive_Organizations'' ''A'' [(''organization_id'', ''acme'')]),
      Stage MainFirestore (Delete_op ''Organizations'' ''A''),
      Stage ArchiveFirestore
        (Set_op ''archive_Organizations'' ''B'' [(''organization_id'', ''acme'')]),
      Stage MainFirestore (Delete_op ''Organizations'' ''B''),
      Commit ArchiveFirestore
        [Set_op ''archive_Organizations'' ''A'' [(''organization_id'', ''acme'')],
         Set_op ''archive_Organizations'' ''B'' [(''organization_id'', ''acme'')]] True,
      Commit MainFirestore
        [Delete_op ''Organizations'' ''A'', Delete_op ''Organizations'' ''B''] True,
      Stage ArchiveFirestore
        (Set_op ''archive_Organizations'' ''C'' [(''organization_id'', ''acme'')]),
      Stage MainFirestore (Delete_op ''Organizations'' ''C''),
      Stage ArchiveFirestore
        (Set_op ''archive_Organizations'' ''D'' [(''organization_id'', ''acme'')]),
      Stage MainFirestore (Delete_op ''Organizations'' ''D''),
      Commit ArchiveFirestore
        [Set_op ''archive_Organizations'' ''C'' [(''organization_id'', ''acme'')],
         Set_op ''archive_Organizations'' ''D'' [(''organization_id'', ''acme'')]] True,
      Commit MainFirestore
        [Delete_op ''Organizations'' ''C'', Delete_op ''Organizations'' ''D''] True,
      Stage ArchiveFirestore
        (Set_op ''archive_Organizations'' ''E'' [(''organization_id'', ''acme'')]),
      Stage MainFirestore (Delete_op ''Organizations'' ''E''),
      Commit ArchiveFirestore
        [Set_op ''archive_Organizations'' ''E'' [(''organization_id'', ''acme'')]] True,
      Commit MainFirestore [Delete_op ''Organizations'' ''E''] True]"
proof -
  let ?w = "example_world accepting"
  let ?o = "example_options ''acme'' 2 (Some False)"
  have nd: "\<not> the_isDryRun ?o" by (rule example_not_dry)
  have nf: "\<forall>k. \<not> faults ?w k" by (rule example_accepting)
  have run: "new_events ?w (snd (archiveContactsDocuments ?o ?w)) =
          Query (liveCollection ?o) (organizationId ?o) True # spec_events ?o (matched ?o ?w)"
    using commits_in_order [OF nd, of ?w] nf by blast
  have "spec_events ?o (matched ?o ?w) = concat (map (batch_events ?o) (batches_of ?o ?w))"
    by (simp add: spec_events_def batches_of_def)
  also have "\<dots> =
     [Stage ArchiveFirestore
        (Set_op ''archive_Organizations'' ''A'' [(''organization_id'', ''acme'')]),
      Stage MainFirestore (Delete_op ''Organizations'' ''A''),
      Stage ArchiveFirestore
        (Set_op ''archive_Organizations'' ''B'' [(''organization_id'', ''acme'')]),
      Stage MainFirestore (Delete_op ''Organizations'' ''B''),
      Commit ArchiveFirestore
        [Set_op ''archive_Organizations'' ''A'' [(''organization_id'', ''acme'')],
         Set_op ''archive_Organizations'' ''B'' [(''organization_id'', ''acme'')]] True,
      Commit MainFirestore
        [Delete_op ''Organizations'' ''A'', Delete_op ''Organizations'' ''B''] True,
      Stage ArchiveFirestore
        (Set_op ''archive_Organizations'' ''C'' [(''organization_id'', ''acme'')]),
      Stage MainFirestore (Delete_op ''Organizations'' ''C''),
      Stage ArchiveFirestore
        (Set_op ''archive_Organizations'' ''D'' [(''organization_id'', ''acme'')]),
      Stage MainFirestore (Delete_op ''Organizations'' ''D''),
      Commit ArchiveFirestore
        [Set_op ''archive_Organizations'' ''C'' [(''organization_id'', ''acme'')],
         Set_op ''archive_Organizations'' ''D'' [(''organization_id'', ''acme'')]] True,
      Commit MainFirestore
        [Delete_op ''Organizations'' ''C'', Delete_op ''Organizations'' ''D''] True,
      Stage ArchiveFirestore
        (Set_op ''archive_Organizations'' ''E'' [(''organization_id'', ''acme'')]),
      Stage MainFirestore (Delete_op ''Organizations'' ''E''),
      Commit ArchiveFirestore
        [Set_op ''archive_Organizations'' ''E'' [(''organization_id'', ''acme'')]] True,
      Commit MainFirestore [Delete_op ''Organizations'' ''E''] True]"
    unfolding example_batches
    by (simp add: batch_events_def stage_events_def set_of_def delete_of_def
          example_options_def)
  finally have ev: "spec_events ?o (matched ?o ?w) = \<dots>" .
  have q: "liveCollection ?o = ''Organizations''" "organizationId ?o = ''acme''"
    by (simp_all add: example_options_def)
  show ?thesis
    using nd nf run unfolding ev q by simp
qed

subsection \<open>A failing preflight probe\<close>

text \<open>
  C7. If the query of the preflight probe is rejected, the probe logs the error and
  returns false, and \<open>main\<close> then does exactly what it does when the query is answered
  with no matching record: it logs "No documents found. Exiting archival process." and
  returns. The archival procedure is not entered: the rejected query is the only event of
  the run, the log gains the lines of the probe and the exit line alone, and both
  databases are as they were.
\<close>

theorem probe_failure_is_noop:
  assumes "faults w (calls w)"
  shows "testFetchDocuments LIVE_COLLECTION (org av) (verifyProjects mp ap w) =
           (Inr False,
            w\<lparr>logged := logged w @
                 [LogInfo (Main_project mp), LogInfo (Archive_project ap),
                  LogInfo (Testing_fetch (org av) LIVE_COLLECTION),
                  LogError Error_test_fetch (Some QueryError)],
              trace := trace w @ [Query LIVE_COLLECTION (org av) False],
              calls := calls w + 1\<rparr>)
         \<and> main av mp ap w =
           (Inr (),
            logger_info No_documents_exiting
              (snd (testFetchDocuments LIVE_COLLECTION (org av) (verifyProjects mp ap w))))
         \<and> (\<forall>v. \<not> faults v (calls v) \<and> matched (main_options av) v = [] \<longrightarrow>
               main av mp ap v =
                 (Inr (),
                  logger_info No_documents_exiting
                    (snd (testFetchDocuments LIVE_COLLECTION (org av)
                            (verifyProjects mp ap v)))))
         \<and> new_events w (snd (main av mp ap w)) = [Query LIVE_COLLECTION (org av) False]
         \<and> new_entries w (snd (main av mp ap w)) =
             [LogInfo (Main_project mp), LogInfo (Archive_project ap),
              LogInfo (Testing_fetch (org av) LIVE_COLLECTION),
              LogError Error_test_fetch (Some QueryError),
              LogInfo No_documents_exiting]
         \<and> mainFirestore (snd (main av mp ap w)) = mainFirestore w
         \<and> archiveFirestore (snd (main av mp ap w)) = archiveFirestore w"
proof -
  have probe: "testFetchDocuments LIVE_COLLECTION (org av) (verifyProjects mp ap w) =
           (Inr False,
            w\<lparr>logged := logged w @
                 [LogInfo (Main_project mp), LogInfo (Archive_project ap),
                  LogInfo (Testing_fetch (org av) LIVE_COLLECTION),
                  LogError Error_test_fetch (Some QueryError)],
              trace := trace w @ [Query LIVE_COLLECTION (org av) False],
              calls := calls w + 1\<rparr>)"
    using assms
    by (simp add: testFetchDocuments_def testFetch_try_def verifyProjects_def
          query_get_def logger_info_def logger_error_def Let_def)
  have same: "main av mp ap v =
                (Inr (),
                 logger_info No_documents_exiting
                   (snd (testFetchDocuments LIVE_COLLECTION (org av)
                           (verifyProjects mp ap v))))"
    if "fst (testFetchDocuments LIVE_COLLECTION (org av) (verifyProjects mp ap v)) = Inr False"
    for v
  proof -
    obtain r v1 where p: "testFetchDocuments LIVE_COLLECTION (org av) (verifyProjects mp ap v) =
                            (r, v1)"
      by (cases "testFetchDocuments LIVE_COLLECTION (org av) (verifyProjects mp ap v)")
    then have "r = Inr False" using that by simp
    then show ?thesis by (simp add: main_def p)
  qed
  have empty: "fst (testFetchDocuments LIVE_COLLECTION (org av) (verifyProjects mp ap v)) =
                 Inr False"
    if "\<not> faults v (calls v) \<and> matched (main_options av) v = []" for v
    using that
    by (simp add: testFetchDocuments_def testFetch_try_def verifyProjects_def
          query_get_def logger_info_def Let_def matched_def)
  have m: "main av mp ap w =
             (Inr (),
              logger_info No_documents_exiting
                (snd (testFetchDocuments LIVE_COLLECTION (org av) (verifyProjects mp ap w))))"
    by (rule same) (simp add: probe)
  have rest: "new_events w (snd (main av mp ap w)) = [Query LIVE_COLLECTION (org av) False]"
    "new_entries w (snd (main av mp ap w)) =
             [LogInfo (Main_project mp), LogInfo (Archive_project ap),
              LogInfo (Testing_fetch (org av) LIVE_COLLECTION),
              LogError Error_test_fetch (Some QueryError),
              LogInfo No_documents_exiting]"
    "mainFirestore (snd (main av mp ap w)) = mainFirestore w"
    "archiveFirestore (snd (main av mp ap w)) = archiveFirestore w"
    by (simp_all add: m probe logger_info_def new_events_def new_entries_def)
  show ?thesis
    using probe m same empty rest by blast
qed

theorem probe_failure_is_noop_witness:
  "faults (example_world (rejecting 0)) (calls (example_world (rejecting 0)))
   \<and> \<not> faults (example_world accepting) (calls (example_world accepting))
   \<and> matched (main_options \<lparr>org = ''none-exist'', dryRun = None\<rparr>)
        (example_world accepting) = []
   \<and> main \<lparr>org = ''none-exist'', dryRun = None\<rparr> ''live-project'' ''archive-project''
        (example_world accepting) =
       (Inr (),
        logger_info No_documents_exiting
          (snd (testFetchDocuments LIVE_COLLECTION ''none-exist''
                  (verifyProjects ''live-project'' ''archive-project''
                     (example_world accepting)))))
   \<and> main \<lparr>org = ''none-exist'', dryRun = None\<rparr> ''live-project'' ''archive-project''
        (example_world (rejecting 0)) =
       (Inr (),
        logger_info No_documents_exiting
          (snd (testFetchDocuments LIVE_COLLECTION ''none-exist''
                  (verifyProjects ''live-project'' ''archive-project''
                     (example_world (rejecting 0))))))
   \<and> new_events (example_world (rejecting 0))
        (snd (main \<lparr>org = ''none-exist'', dryRun = None\<rparr> ''live-project''
                ''archive-project'' (example_world (rejecting 0)))) =
       [Query ''Organizations'' ''none-exist'' False]"
proof -
  let ?w = "example_world (rejecting 0)"
  let ?v = "example_world accepting"
  let ?av = "\<lparr>org = ''none-exist'', dryRun = None\<rparr>"
  have a: "faults ?w (calls ?w)"
    by (simp add: example_world_def rejecting_def)
  have b: "\<not> faults ?v (calls ?v)"
    by (simp add: example_world_def accepting_def)
  have c: "matched (main_options ?av) ?v = []"
    by (simp add: matched_def matching_def main_options_def LIVE_COLLECTION_def
          example_world_def acme_doc_def)
  note inst = probe_failure_is_noop [OF a, of ?av "''live-project''" "''archive-project''"]
  have "main ?av ''live-project'' ''archive-project'' ?v =
          (Inr (),
           logger_info No_documents_exiting
             (snd (testFetchDocuments LIVE_COLLECTION (org ?av)
                     (verifyProjects ''live-project'' ''archive-project'' ?v))))"
    using inst b c by blast
  then have d: "main ?av ''live-project'' ''archive-project'' ?v =
          (Inr (),
           logger_info No_documents_exiting
             (snd (testFetchDocuments LIVE_COLLECTION ''none-exist''
                     (verifyProjects ''live-project'' ''archive-project'' ?v))))"
    by simp
  have "main ?av ''live-project'' ''archive-project'' ?w =
          (Inr (),
           logger_info No_documents_exiting
             (snd (testFetchDocuments LIVE_COLLECTION (org ?av)
                     (verifyProjects ''live-project'' ''archive-project'' ?w))))"
    using inst by blast
  then have e: "main ?av ''live-project'' ''archive-project'' ?w =
          (Inr (),
           logger_info No_documents_exiting
             (snd (testFetchDocuments LIVE_COLLECTION ''none-exist''
                     (verifyProjects ''live-project'' ''archive-project'' ?w))))"
    by simp
  have "new_events ?w (snd (main ?av ''live-project'' ''archive-project'' ?w)) =
          [Query LIVE_COLLECTION (org ?av) False]"
    using inst by blast
  then have f: "new_events ?w (snd (main ?av ''live-project'' ''archive-project'' ?w)) =
          [Query ''Organizations'' ''none-exist'' False]"
    by (simp add: LIVE_COLLECTION_def)
  from a b c d e f show ?thesis by (intro conjI)
qed

subsection \<open>No matching records\<close>

text \<open>
  C8. If the query of the archival procedure is answered with zero matching records, the
  procedure logs "No documents match the archival criteria." and returns normally: the
  world it leaves differs from the one it found by the two log lines and the query alone,
  so neither database is written and nothing is staged or committed.
\<close>

theorem no_match_is_noop:
  assumes "\<not> faults w (calls w)"
    and "matching (organizationId opts) (mainFirestore w (liveCollection opts)) = []"
  shows "archiveContactsDocuments opts w =
           (Inr (),
            w\<lparr>logged := logged w @
                 [LogInfo (Starting (organizationId opts) (liveCollection opts)
                             (archiveCollection opts)),
                  LogInfo No_match],
              trace := trace w @ [Query (liveCollection opts) (organizationId opts) True],
              calls := calls w + 1\<rparr>)
         \<and> render No_match = ''No documents match the archival criteria.''"
  using assms
  by (simp add: archiveContactsDocuments_def archive_try_def query_get_def logger_info_def
        Let_def)

theorem no_match_is_noop_witness:
  "\<not> faults (example_world accepting) (calls (example_world accepting))
   \<and> matching (organizationId (example_options ''none-exist'' 500 None))
        (mainFirestore (example_world accepting)
           (liveCollection (example_options ''none-exist'' 500 None))) = []
   \<and> archiveContactsDocuments (example_options ''none-exist'' 500 None)
        (example_world accepting) =
       (Inr (),
        (example_world accepting)\<lparr>logged :=
            [LogInfo (Starting ''none-exist'' ''Organizations'' ''archive_Organizations''),
             LogInfo No_match],
          trace := [Query ''Organizations'' ''none-exist'' True],
          calls := 1\<rparr>)"
proof -
  let ?w = "example_world accepting"
  let ?o = "example_options ''none-exist'' 500 None"
  have a: "\<not> faults ?w (calls ?w)"
    by (simp add: example_world_def accepting_def rejecting_def)
  have b: "matching (organizationId ?o) (mainFirestore ?w (liveCollection ?o)) = []"
    by (simp add: example_world_def example_options_def matching_def acme_doc_def)
  show ?thesis
    using a b no_match_is_noop [OF a b]
    by (simp add: example_world_def example_options_def)
qed

subsection \<open>Exit status\<close>

text \<open>
  C9, as stated, fails: started without the required \<open>--org\<close> option and with both
  service accounts carrying a project identifier, the process ends with status 1.
\<close>

theorem missing_org_counterexample:
  "fst (script \<lparr>org_option = None, dryRun_option = None\<rparr>
          \<lparr>project_id = Some ''live-project''\<rparr> \<lparr>project_id = Some ''archive-project''\<rparr>
          (example_world accepting)) = 1
   \<and> \<not> missing_project_id \<lparr>project_id = Some ''live-project''\<rparr>
   \<and> \<not> missing_project_id \<lparr>project_id = Some ''archive-project''\<rparr>"
  by (simp add: script_def missing_project_id_def)

text \<open>
  C9, amended. The exit status is non-zero exactly when the start-up configuration is
  invalid: the required \<open>--org\<close> option is absent, or a service account has no
  (non-empty) \<open>project_id\<close>. Otherwise the status is 0 whatever the backend rejects, and
  every rejected backend call of the run has an error entry in the log carrying its
  error.
\<close>

theorem startup_decides_exit_status:
  "(fst (script cl d a w) \<noteq> 0 \<longleftrightarrow>
      org_option cl = None \<or> missing_project_id d \<or> missing_project_id a)
   \<and> (fst (script cl d a w) = 0 \<longrightarrow>
        (\<forall>ev\<in>set (new_events w (snd (script cl d a w))).
           error_of ev \<noteq> None \<longrightarrow>
           (\<exists>m. LogError m (error_of ev) \<in> set (new_entries w (snd (script cl d a w))))))"
proof (cases "org_option cl = None \<or> missing_project_id d \<or> missing_project_id a")
  case True
  then have "fst (script cl d a w) = 1"
    by (auto simp: script_def split: option.splits)
  then show ?thesis using True by simp
next
  case False
  then obtain g where g: "org_option cl = Some g" by auto
  let ?av = "\<lparr>org = g, dryRun = dryRun_option cl\<rparr>"
  let ?m = "main ?av (projectId d) (projectId a) w"
  have r: "fst ?m = Inr ()" by (rule main_returns)
  obtain u w' where m: "?m = (Inr u, w')"
    using r by (cases ?m) auto
  have s: "script cl d a w = (0, snd ?m)"
    using False g by (simp add: script_def m)
  show ?thesis
    using False main_errors_logged [of _ w ?av "projectId d" "projectId a"]
    by (simp add: s)
qed

theorem startup_decides_exit_status_witness:
  "fst (script \<lparr>org_option = Some ''acme'', dryRun_option = None\<rparr>
          \<lparr>project_id = Some ''live-project''\<rparr> \<lparr>project_id = Some ''archive-project''\<rparr>
          (example_world (rejecting 3))) = 0
   \<and> Commit MainFirestore
        [Delete_op ''Organizations'' ''A'', Delete_op ''Organizations'' ''B'',
         Delete_op ''Organizations'' ''C'', Delete_op ''Organizations'' ''D'',
         Delete_op ''Organizations'' ''E''] False
       \<in> set (new_events (example_world (rejecting 3))
                (snd (script \<lparr>org_option = Some ''acme'', dryRun_option = None\<rparr>
                        \<lparr>project_id = Some ''live-project''\<rparr>
                        \<lparr>project_id = Some ''archive-project''\<rparr>
                        (example_world (rejecting 3)))))
   \<and> (\<exists>m. LogError m (Some (CommitError MainFirestore))
             \<in> set (new_entries (example_world (rejecting 3))
                (snd (script \<lparr>org_option = Some ''acme'', dryRun_option = None\<rparr>
                        \<lparr>project_id = Some ''live-project''\<rparr>
                        \<lparr>project_id = Some ''archive-project''\<rparr>
                        (example_world (rejecting 3))))))"
proof -
  let ?cl = "\<lparr>org_option = Some ''acme'', dryRun_option = None\<rparr>"
  let ?d = "\<lparr>project_id = Some ''live-project''\<rparr>"
  let ?a = "\<lparr>project_id = Some ''archive-project''\<rparr>"
  let ?w = "example_world (rejecting 3)"
  let ?ev = "Commit MainFirestore
        [Delete_op ''Organizations'' ''A'', Delete_op ''Organizations'' ''B'',
         Delete_op ''Organizations'' ''C'', Delete_op ''Organizations'' ''D'',
         Delete_op ''Organizations'' ''E''] False"
  note inst = startup_decides_exit_status [of ?cl ?d ?a ?w]
  have ok: "\<not> (org_option ?cl = None \<or> missing_project_id ?d \<or> missing_project_id ?a)"
    by (simp add: missing_project_id_def)
  then have z: "fst (script ?cl ?d ?a ?w) = 0" using inst by blast
  have ev: "?ev \<in> set (new_events ?w (snd (script ?cl ?d ?a ?w)))"
    by (simp add: script_def missing_project_id_def projectId_def main_def
          testFetchDocuments_def testFetch_try_def verifyProjects_def main_options_def
          LIVE_COLLECTION_def ARCHIVE_COLLECTION_def truthy_def run_defs)
  have "error_of ?ev \<noteq> None" by simp
  then have "\<exists>m. LogError m (error_of ?ev) \<in> set (new_entries ?w (snd (script ?cl ?d ?a ?w)))"
    using inst z ev by blast
  then show ?thesis using z ev by simp
qed

subsection \<open>The dry-run flag left out\<close>

text \<open>
  C10. Without \<open>--dryRun\<close> on the command line \<open>argv.dryRun\<close> is undefined, and \<open>main\<close>
  passes that value on: the options object has \<open>isDryRun\<close> undefined, which the default
  of the parameter turns into false, so \<open>main\<close> behaves exactly as with the flag set to
  false. The run is live: when the backend rejects nothing and records match, both
  sinks accept the write batches of the matched records, the archive holds every
  matched record under its identifier (identifiers of the collection being unique), and
  none of them is left in the live collection.
\<close>

theorem omitted_flag_runs_live:
  assumes "dryRun av = None"
  shows "isDryRun (main_options av) = None
     \<and> \<not> the_isDryRun (main_options av)
     \<and> main av mp ap w = main (av\<lparr>dryRun := Some False\<rparr>) mp ap w
     \<and> ((\<forall>k. \<not> faults w k) \<and> matched (main_options av) w \<noteq> [] \<longrightarrow>
          committed ArchiveFirestore (new_events w (snd (main av mp ap w))) =
            map (map (set_of (main_options av))) (batches_of (main_options av) w)
          \<and> committed MainFirestore (new_events w (snd (main av mp ap w))) =
            map (map (delete_of (main_options av))) (batches_of (main_options av) w)
          \<and> archiveFirestore (snd (main av mp ap w)) =
              apply_ops (map (set_of (main_options av)) (matched (main_options av) w))
                (archiveFirestore w)
          \<and> mainFirestore (snd (main av mp ap w)) =
              apply_ops (map (delete_of (main_options av)) (matched (main_options av) w))
                (mainFirestore w)
          \<and> (\<forall>d\<in>set (matched (main_options av) w).
               map_of (mainFirestore (snd (main av mp ap w)) LIVE_COLLECTION) (doc_id d) = None
               \<and> (distinct (map fst (mainFirestore w LIVE_COLLECTION)) \<longrightarrow>
                    map_of (archiveFirestore (snd (main av mp ap w)) ARCHIVE_COLLECTION)
                      (doc_id d) = Some (doc_data d))))"
proof -
  let ?o = "main_options av"
  let ?docs = "matched ?o w"
  let ?w' = "snd (main av mp ap w)"
  have nt: "\<not> truthy (dryRun av)" using assms by (simp add: truthy_def)
  have a: "isDryRun ?o = None" using assms by (simp add: main_options_def)
  have b: "\<not> the_isDryRun ?o" using nt by simp
  have c: "main av mp ap w = main (av\<lparr>dryRun := Some False\<rparr>) mp ap w"
    using assms by (rule main_undefined_flag)
  have d: "committed ArchiveFirestore (new_events w ?w') =
            map (map (set_of ?o)) (batches_of ?o w)
          \<and> committed MainFirestore (new_events w ?w') =
            map (map (delete_of ?o)) (batches_of ?o w)
          \<and> archiveFirestore ?w' = apply_ops (map (set_of ?o) ?docs) (archiveFirestore w)
          \<and> mainFirestore ?w' = apply_ops (map (delete_of ?o) ?docs) (mainFirestore w)
          \<and> (\<forall>d\<in>set ?docs.
               map_of (mainFirestore ?w' LIVE_COLLECTION) (doc_id d) = None
               \<and> (distinct (map fst (mainFirestore w LIVE_COLLECTION)) \<longrightarrow>
                    map_of (archiveFirestore ?w' ARCHIVE_COLLECTION) (doc_id d) =
                      Some (doc_data d)))"
    if nf: "\<forall>k. \<not> faults w k" and ne: "?docs \<noteq> []"
  proof -
    note run = main_live_run [OF nt nf ne, of mp ap]
    have ev: "new_events w ?w' =
                Query LIVE_COLLECTION (org av) True # Query LIVE_COLLECTION (org av) True
                # spec_events ?o ?docs"
      by (simp add: run new_events_def)
    have ar: "archiveFirestore ?w' = apply_ops (map (set_of ?o) ?docs) (archiveFirestore w)"
      and mn: "mainFirestore ?w' = apply_ops (map (delete_of ?o) ?docs) (mainFirestore w)"
      by (simp_all add: run)
    have cm: "committed ArchiveFirestore (new_events w ?w') =
                map (map (set_of ?o)) (batches_of ?o w)"
      "committed MainFirestore (new_events w ?w') =
                map (map (delete_of ?o)) (batches_of ?o w)"
      by (simp_all add: ev spec_events_def committed_batches batches_of_def)
    have gone: "map_of (mainFirestore ?w' LIVE_COLLECTION) (doc_id d) = None"
      if "d \<in> set ?docs" for d
      using that map_of_apply_deletes [of ?o ?docs "mainFirestore w" "doc_id d"]
      by (simp add: mn)
    have kept: "map_of (archiveFirestore ?w' ARCHIVE_COLLECTION) (doc_id d) =
                  Some (doc_data d)"
      if "d \<in> set ?docs" and dc: "distinct (map fst (mainFirestore w LIVE_COLLECTION))" for d
    proof -
      have "distinct (map doc_id ?docs)"
        using dc by (simp add: matched_def distinct_matching)
      from map_of_apply_sets [OF this that(1), of ?o "archiveFirestore w"]
      show ?thesis by (simp add: ar)
    qed
    show ?thesis using cm ar mn gone kept by blast
  qed
  show ?thesis using a b c d by blast
qed

theorem omitted_flag_runs_live_witness:
  "dryRun \<lparr>org = ''acme'', dryRun = None\<rparr> = None
   \<and> (\<forall>k. \<not> faults (example_world accepting) k)
   \<and> \<lparr>doc_id = ''A'', doc_data = [(''organization_id'', ''acme'')]\<rparr>
       \<in> set (matched (main_options \<lparr>org = ''acme'', dryRun = None\<rparr>)
                (example_world accepting))
   \<and> distinct (map fst (mainFirestore (example_world accepting) LIVE_COLLECTION))
   \<and> map_of (mainFirestore
               (snd (main \<lparr>org = ''acme'', dryRun = None\<rparr> ''live-project''
                       ''archive-project'' (example_world accepting)))
               LIVE_COLLECTION) ''A'' = None
   \<and> map_of (archiveFirestore
               (snd (main \<lparr>org = ''acme'', dryRun = None\<rparr> ''live-project''
                       ''archive-project'' (example_world accepting)))
               ARCHIVE_COLLECTION) ''A'' = Some [(''organization_id'', ''acme'')]"
proof -
  let ?av = "\<lparr>org = ''acme'', dryRun = None\<rparr>"
  let ?w = "example_world accepting"
  let ?A = "\<lparr>doc_id = ''A'', doc_data = [(''organization_id'', ''acme'')]\<rparr>"
  let ?w' = "snd (main ?av ''live-project'' ''archive-project'' ?w)"
  have h: "dryRun ?av = None" by simp
  have nf: "\<forall>k. \<not> faults ?w k" by (rule example_accepting)
  have A: "?A \<in> set (matched (main_options ?av) ?w)" by (simp add: example_main_matched)
  then have ne: "matched (main_options ?av) ?w \<noteq> []" by auto
  have dc: "distinct (map fst (mainFirestore ?w LIVE_COLLECTION))"
    by (simp add: example_world_def acme_doc_def LIVE_COLLECTION_def)
  note inst = omitted_flag_runs_live [OF h, of "''live-project''" "''archive-project''" ?w]
  have "map_of (mainFirestore ?w' LIVE_COLLECTION) (doc_id ?A) = None
        \<and> map_of (archiveFirestore ?w' ARCHIVE_COLLECTION) (doc_id ?A) = Some (doc_data ?A)"
    using inst nf ne A dc by blast
  then show ?thesis using h nf A dc by simp
qed

end
